theory Spec2Isabelle
  imports Main "HOL-Library.Code_Target_Nat"
begin
section \<open>The graph store\<close>

text \<open>
  The C library keeps a graph as an array of dynamically allocated neighbour blocks
  (\<open>adj\<close>), an array with the number of neighbours in use per vertex (\<open>adj_size\<close>), the
  number of vertices and a flag for directed graphs. The model keeps the same four fields.
  A block is the list of its slots; the neighbours of a vertex are the first
  \<open>adj_size[v]\<close> slots of its block, a NULL block is the block with no slot.
  Values of type \<open>size_t\<close> are natural numbers, reduced modulo \<open>2 ^ 64\<close> where the C code
  computes with them; values of type \<open>int\<close> are integers.
  Every routine is modelled on a graph pointer that is not NULL and whose two arrays are
  allocated, which is what \<open>create_graph\<close> returns; the guards against NULL that open
  each routine are not part of the model. An allocation that may fail is a Boolean
  parameter of the routine (\<open>True\<close>: the allocator returns a block) wherever the claims
  are about the failure.
\<close>

definition SIZE_MAX :: nat where
  "SIZE_MAX = 2 ^ 64 - 1"

definition INT_MAX :: int where
  "INT_MAX = 2 ^ 31 - 1"

definition GRAFO_MAX_VERTICES :: nat where
  "GRAFO_MAX_VERTICES = 10000"

definition sizeof_size_t :: nat where
  "sizeof_size_t = 8"

definition sizeof_Edge :: nat where
  "sizeof_Edge = 16"

definition sizeof_bool :: nat where
  "sizeof_bool = 1"

definition sizeof_int :: nat where
  "sizeof_int = 4"

definition sizeof_ptr :: nat where
  "sizeof_ptr = 8"

text \<open>Arithmetic of \<open>size_t\<close>: sums and products wrap, \<open>x--\<close> on zero gives \<open>SIZE_MAX\<close>.\<close>

definition size_wrap :: "nat \<Rightarrow> nat" where
  "size_wrap x = x mod (SIZE_MAX + 1)"

definition size_dec :: "nat \<Rightarrow> nat" where
  "size_dec x = (if x = 0 then SIZE_MAX else x - 1)"

text \<open>The conversions \<open>(int)x\<close> of a \<open>size_t\<close> and \<open>(size_t)i\<close> of an \<open>int\<close>.\<close>

definition int_of_size :: "nat \<Rightarrow> int" where
  "int_of_size x =
     (let m = x mod 2 ^ 32 in if m < 2 ^ 31 then int m else int m - 2 ^ 32)"

definition size_of_int :: "int \<Rightarrow> nat" where
  "size_of_int i = nat (i mod 2 ^ 64)"

record Graph =
  adj :: "nat list list"
  adj_size :: "nat list"
  num_vertices :: nat
  directed :: bool

record Edge =
  v1 :: nat
  v2 :: nat

text \<open>The neighbours the routines read: \<open>adj[v][0 .. adj_size[v] - 1]\<close>.\<close>

definition adj_list :: "Graph \<Rightarrow> nat \<Rightarrow> nat list" where
  "adj_list g v = take (adj_size g ! v) (adj g ! v)"

definition checa_overflow :: "nat \<Rightarrow> nat \<Rightarrow> bool" where
  "checa_overflow a b = (a > 0 \<and> b > SIZE_MAX div a)"

text \<open>
  \<open>safe_realloc ok ptr new_size\<close>: a request for zero bytes frees the block and returns
  NULL (\<open>None\<close>), a failing \<open>realloc\<close> returns NULL and keeps the block, a successful one
  returns a block of \<open>new_size\<close> bytes that starts with the old contents. The slots a
  growing block gains are uninitialised in C; the model fills them with zero, and the
  callers write them before they are read.
\<close>

definition safe_realloc :: "bool \<Rightarrow> nat list \<Rightarrow> nat \<Rightarrow> nat list option" where
  "safe_realloc ok ptr new_size =
     (if new_size = 0 then None
      else if \<not> ok then None
      else Some (take (new_size div sizeof_size_t)
                   (ptr @ replicate (new_size div sizeof_size_t) 0)))"

definition create_graph :: "nat \<Rightarrow> bool \<Rightarrow> Graph option" where
  "create_graph n d =
     (if n = 0 \<or> n > GRAFO_MAX_VERTICES then None
      else if checa_overflow n sizeof_size_t then None
      else Some \<lparr>adj = replicate n [], adj_size = replicate n 0,
                 num_vertices = n, directed = d\<rparr>)"

text \<open>
  \<open>add_edge\<close> returns the status code and the graph it leaves behind. The two Booleans
  say whether the reallocation of the block of \<open>src\<close> and of the block of \<open>dest\<close>
  succeed.
\<close>

definition add_edge :: "bool \<Rightarrow> bool \<Rightarrow> Graph \<Rightarrow> nat \<Rightarrow> nat \<Rightarrow> int \<times> Graph" where
  "add_edge ok_src ok_dest g src dest =
     (if src \<ge> num_vertices g \<or> dest \<ge> num_vertices g then (- 2, g)
      else if checa_overflow (size_wrap (adj_size g ! src + 1)) sizeof_size_t then (- 3, g)
      else
        case safe_realloc ok_src (adj g ! src)
               (size_wrap (size_wrap (adj_size g ! src + 1) * sizeof_size_t)) of
          None \<Rightarrow> (- 4, g)
        | Some new_adj_src \<Rightarrow>
            let g1 = g\<lparr>adj := (adj g)[src := new_adj_src[adj_size g ! src := dest]]\<rparr>;
                g2 = g1\<lparr>adj_size := (adj_size g1)[src := size_wrap (adj_size g1 ! src + 1)]\<rparr>
            in
              if \<not> directed g2 then
                if checa_overflow (size_wrap (adj_size g2 ! dest + 1)) sizeof_size_t then
                  (- 3, g2\<lparr>adj_size := (adj_size g2)[src := size_dec (adj_size g2 ! src)]\<rparr>)
                else
                  case safe_realloc ok_dest (adj g2 ! dest)
                         (size_wrap (size_wrap (adj_size g2 ! dest + 1) * sizeof_size_t)) of
                    None \<Rightarrow>
                      (- 4, g2\<lparr>adj_size := (adj_size g2)[src := size_dec (adj_size g2 ! src)]\<rparr>)
                  | Some new_adj_dest \<Rightarrow>
                      let g3 = g2\<lparr>adj := (adj g2)[dest := new_adj_dest[adj_size g2 ! dest := src]]\<rparr>;
                          g4 = g3\<lparr>adj_size :=
                                    (adj_size g3)[dest := size_wrap (adj_size g3 ! dest + 1)]\<rparr>
                      in (0, g4)
              else (0, g2))"

text \<open>
  The search loop of \<open>remove_edge\<close> (\<open>for (i = 0; i < adj_size; i++) if (adj[i] == dest)\<close>)
  and the loop that closes the gap (\<open>for (j = i; j + 1 < adj_size; j++) adj[j] = adj[j + 1]\<close>).
\<close>

function find_edge :: "nat list \<Rightarrow> nat \<Rightarrow> nat \<Rightarrow> nat \<Rightarrow> nat option" where
  "find_edge buf sz dest i =
     (if i < sz then (if buf ! i = dest then Some i else find_edge buf sz dest (i + 1))
      else None)"
  by pat_completeness auto
termination
  by (relation "measure (\<lambda>(buf, sz, dest, i). sz - i)") auto

declare find_edge.simps [simp del]

function shift_left :: "nat list \<Rightarrow> nat \<Rightarrow> nat \<Rightarrow> nat list" where
  "shift_left buf sz j =
     (if j + 1 < sz then shift_left (buf[j := buf ! (j + 1)]) sz (j + 1) else buf)"
  by pat_completeness auto
termination
  by (relation "measure (\<lambda>(buf, sz, j). sz - j)") auto

declare shift_left.simps [simp del]

text \<open>
  \<open>remove_edge\<close> runs the same block of code twice, on the list of \<open>src\<close> and, for an
  undirected graph, on the list of \<open>dest\<close>. \<open>remove_first\<close> is that block: it searches
  the first occurrence, closes the gap, decrements the size and shrinks the block; a
  failed shrink of a block that is still in use is reported after the list was changed.
\<close>

datatype removal = NotFound | ReallocFailed Graph | Removed Graph

definition remove_first :: "bool \<Rightarrow> Graph \<Rightarrow> nat \<Rightarrow> nat \<Rightarrow> removal" where
  "remove_first ok g a b =
     (case find_edge (adj g ! a) (adj_size g ! a) b 0 of
        None \<Rightarrow> NotFound
      | Some i \<Rightarrow>
          let buf = shift_left (adj g ! a) (adj_size g ! a) i;
              g1 = g\<lparr>adj := (adj g)[a := buf]\<rparr>;
              g2 = g1\<lparr>adj_size := (adj_size g1)[a := size_dec (adj_size g1 ! a)]\<rparr>;
              new_adj = safe_realloc ok buf (size_wrap (adj_size g2 ! a * sizeof_size_t))
          in
            if new_adj = None \<and> adj_size g2 ! a > 0 then ReallocFailed g2
            else Removed (g2\<lparr>adj := (adj g2)[a := (case new_adj of None \<Rightarrow> [] | Some p \<Rightarrow> p)]\<rparr>))"

definition remove_edge :: "bool \<Rightarrow> bool \<Rightarrow> Graph \<Rightarrow> nat \<Rightarrow> nat \<Rightarrow> int \<times> Graph" where
  "remove_edge ok_src ok_dest g src dest =
     (if src \<ge> num_vertices g \<or> dest \<ge> num_vertices g then (- 2, g)
      else
        case remove_first ok_src g src dest of
          NotFound \<Rightarrow> (- 3, g)
        | ReallocFailed g1 \<Rightarrow> (- 4, g1)
        | Removed g1 \<Rightarrow>
            if \<not> directed g1 then
              (case remove_first ok_dest g1 dest src of
                 NotFound \<Rightarrow> (0, g1)
               | ReallocFailed g2 \<Rightarrow> (- 4, g2)
               | Removed g2 \<Rightarrow> (0, g2))
            else (0, g1))"

text \<open>
  \<open>get_edges\<close> returns the array of edges (\<open>None\<close> for NULL) and the value it leaves in
  \<open>*num_edges\<close>. The Booleans say whether the allocation of the edge array and of the
  \<open>processed\<close> array succeed; the final shrinking \<open>safe_realloc\<close> keeps the array
  whether or not it succeeds, so it has no parameter. The loop state is the edges
  written so far and the \<open>processed\<close> array; \<open>None\<close> is the early return taken when the
  capacity is exceeded.
\<close>

definition get_edges_entry ::
  "Graph \<Rightarrow> nat \<Rightarrow> nat \<Rightarrow> nat \<Rightarrow> (Edge list \<times> bool list) option \<Rightarrow> (Edge list \<times> bool list) option" where
  "get_edges_entry g capacity v x st =
     (case st of
        None \<Rightarrow> None
      | Some (edges, processed) \<Rightarrow>
          let w = int_of_size x in
            if size_of_int w \<ge> num_vertices g then Some (edges, processed)
            else if directed g then
              if length edges \<ge> capacity then None
              else Some (edges @ [\<lparr>v1 = size_of_int (int_of_size v), v2 = size_of_int w\<rparr>], processed)
            else
              let mn = (if int_of_size v < w then int_of_size v else w);
                  mx = (if int_of_size v < w then w else int_of_size v);
                  index = size_wrap (size_wrap (size_of_int mn * num_vertices g) + size_of_int mx)
              in
                if index \<ge> capacity then Some (edges, processed)
                else if \<not> processed ! index then
                  if length edges \<ge> capacity then None
                  else Some (edges @ [\<lparr>v1 = size_of_int mn, v2 = size_of_int mx\<rparr>],
                             processed[index := True])
                else Some (edges, processed))"

definition get_edges_vertex ::
  "Graph \<Rightarrow> nat \<Rightarrow> (Edge list \<times> bool list) option \<Rightarrow> nat \<Rightarrow> (Edge list \<times> bool list) option" where
  "get_edges_vertex g capacity st v =
     (if adj g ! v = [] then st
      else fold (get_edges_entry g capacity v) (adj_list g v) st)"

definition get_edges :: "bool \<Rightarrow> bool \<Rightarrow> Graph \<Rightarrow> Edge list option \<times> nat" where
  "get_edges ok_edges ok_processed g =
     (if num_vertices g = 0 then (None, 0)
      else if num_vertices g > SIZE_MAX div sizeof_Edge then (None, 0)
      else
        let capacity = size_wrap (num_vertices g * num_vertices g) in
          if capacity = 0 \<or> capacity > SIZE_MAX div sizeof_Edge then (None, 0)
          else if \<not> ok_edges then (None, 0)
          else if \<not> directed g \<and> capacity > SIZE_MAX div sizeof_bool then (None, 0)
          else if \<not> directed g \<and> \<not> ok_processed then (None, 0)
          else
            case foldl (get_edges_vertex g capacity)
                   (Some ([], if directed g then [] else replicate capacity False))
                   [0 ..< num_vertices g] of
              None \<Rightarrow> (None, 0)
            | Some (edges, processed) \<Rightarrow>
                if length edges > 0 then (Some edges, length edges) else (None, 0))"

text \<open>
  A graph of the store: the two arrays have one entry per vertex, no list is longer
  than its block, and every block fits the address space.
\<close>

definition wf_graph :: "Graph \<Rightarrow> bool" where
  "wf_graph g \<longleftrightarrow>
     length (adj g) = num_vertices g \<and> length (adj_size g) = num_vertices g \<and>
     (\<forall>v \<in> {0 ..< num_vertices g}. adj_size g ! v \<le> length (adj g ! v) \<and>
        length (adj g ! v) * sizeof_size_t \<le> SIZE_MAX)"

text \<open>Every stored neighbour is a vertex of the graph.\<close>

definition valid_entries :: "Graph \<Rightarrow> bool" where
  "valid_entries g \<longleftrightarrow>
     (\<forall>v \<in> {0 ..< num_vertices g}. \<forall>w \<in> set (adj_list g v). w < num_vertices g)"

text \<open>
  An undirected state is symmetric when \<open>v\<close> occurs in the list of \<open>u\<close> as often as
  \<open>u\<close> occurs in the list of \<open>v\<close>, for distinct vertices.
\<close>

definition symmetric :: "Graph \<Rightarrow> bool" where
  "symmetric g \<longleftrightarrow>
     (\<forall>u \<in> {0 ..< num_vertices g}. \<forall>v \<in> {0 ..< num_vertices g}.
        u \<noteq> v \<longrightarrow> count_list (adj_list g u) v = count_list (adj_list g v) u)"
text \<open>Auxiliary notions of the proofs: two states of one graph, and the append step of \<open>add_edge\<close>.\<close>

definition same_shape :: "Graph \<Rightarrow> Graph \<Rightarrow> bool" where
  "same_shape g g' \<longleftrightarrow> num_vertices g' = num_vertices g \<and> directed g' = directed g"

definition grow :: "Graph \<Rightarrow> nat \<Rightarrow> nat \<Rightarrow> nat list \<Rightarrow> Graph" where
  "grow g a x nb =
     g\<lparr>adj := (adj g)[a := nb[adj_size g ! a := x]],
       adj_size := (adj_size g)[a := size_wrap (adj_size g ! a + 1)]\<rparr>"

text \<open>
  Example states, built through the interface: three vertices with the undirected edges
  (0, 1) and (0, 2); a single vertex; three vertices and no edge.
\<close>

definition g_two_edges :: Graph where
  "g_two_edges =
     snd (add_edge True True (snd (add_edge True True (the (create_graph 3 False)) 0 1)) 0 2)"

definition g_one_vertex :: Graph where
  "g_one_vertex = the (create_graph 1 False)"

definition g_edgeless :: Graph where
  "g_edgeless = the (create_graph 3 False)"

section \<open>Shortest paths on unit weights\<close>

text \<open>
  The three routines take optional \<open>out_path\<close> and \<open>out_len\<close> pointers and return the
  distance. They are modelled for a caller that passes NULL for both, so that only the
  distance is computed; the temporary arrays are assumed to be allocated. Arrays are
  lists indexed by vertex, \<open>INT_MAX\<close> stands for an unreachable vertex and \<open>SIZE_MAX\<close>
  for a missing predecessor.
\<close>

text \<open>
  Dijkstra: the scan for the unvisited vertex of least distance (the first one wins a
  tie), the relaxation of one neighbour, and the main loop with its two \<open>break\<close>s.
\<close>

definition dijkstra_select :: "nat \<Rightarrow> int list \<Rightarrow> bool list \<Rightarrow> int \<times> nat" where
  "dijkstra_select n dist visited =
     fold (\<lambda>v (min_dist, u).
             if \<not> visited ! v \<and> dist ! v < min_dist then (dist ! v, v) else (min_dist, u))
       [0 ..< n] (INT_MAX, n)"

definition dijkstra_relax ::
  "nat \<Rightarrow> nat \<Rightarrow> bool list \<Rightarrow> nat \<Rightarrow> int list \<times> nat list \<Rightarrow> int list \<times> nat list" where
  "dijkstra_relax n u visited v st =
     (case st of (dist, prev) \<Rightarrow>
        if v \<ge> n then (dist, prev)
        else if \<not> visited ! v \<and> dist ! u \<noteq> INT_MAX \<and> dist ! u + 1 < dist ! v
          then (dist[v := dist ! u + 1], prev[v := u])
        else (dist, prev))"

function dijkstra_loop ::
  "Graph \<Rightarrow> nat \<Rightarrow> nat \<Rightarrow> int list \<Rightarrow> bool list \<Rightarrow> nat list \<Rightarrow> int list \<times> bool list \<times> nat list" where
  "dijkstra_loop g target count dist visited prev =
     (if count < num_vertices g then
        let u = snd (dijkstra_select (num_vertices g) dist visited) in
          if u = num_vertices g \<or> dist ! u = INT_MAX then (dist, visited, prev)
          else
            let visited' = visited[u := True] in
              if u = target then (dist, visited', prev)
              else
                let st = fold (dijkstra_relax (num_vertices g) u visited') (adj_list g u) (dist, prev)
                in dijkstra_loop g target (count + 1) (fst st) visited' (snd st)
      else (dist, visited, prev))"
  by pat_completeness auto
termination
  by (relation "measure (\<lambda>(g, target, count, dist, visited, prev). num_vertices g - count)") auto

declare dijkstra_loop.simps [simp del]

definition dijkstra_shortest_path :: "Graph \<Rightarrow> nat \<Rightarrow> nat \<Rightarrow> int" where
  "dijkstra_shortest_path g source target =
     (let n = num_vertices g in
        if source \<ge> n \<or> target \<ge> n then INT_MAX
        else if n = 0 \<or> n > SIZE_MAX div sizeof_int then INT_MAX
        else
          let dist = (replicate n INT_MAX)[source := 0];
              visited = replicate n False;
              prev = replicate n SIZE_MAX
          in fst (dijkstra_loop g target 0 dist visited prev) ! target)"

text \<open>
  Bellman-Ford: the relaxation of one edge, one pass over every vertex that already has
  a distance, and at most \<open>n - 1\<close> passes, stopped by a pass that changes nothing.
\<close>

definition bellman_ford_relax ::
  "nat \<Rightarrow> nat \<Rightarrow> nat \<Rightarrow> int list \<times> nat list \<times> bool \<Rightarrow> int list \<times> nat list \<times> bool" where
  "bellman_ford_relax n u v st =
     (case st of (dist, prev, updated) \<Rightarrow>
        if v \<ge> n then (dist, prev, updated)
        else if dist ! u + 1 < dist ! v then (dist[v := dist ! u + 1], prev[v := u], True)
        else (dist, prev, updated))"

definition bellman_ford_vertex ::
  "Graph \<Rightarrow> nat \<Rightarrow> int list \<times> nat list \<times> bool \<Rightarrow> int list \<times> nat list \<times> bool" where
  "bellman_ford_vertex g u st =
     (if fst st ! u = INT_MAX then st
      else fold (bellman_ford_relax (num_vertices g) u) (adj_list g u) st)"

function bellman_ford_loop ::
  "Graph \<Rightarrow> nat \<Rightarrow> int list \<Rightarrow> nat list \<Rightarrow> int list \<times> nat list" where
  "bellman_ford_loop g iter dist prev =
     (if iter < num_vertices g - 1 then
        let st = fold (bellman_ford_vertex g) [0 ..< num_vertices g] (dist, prev, False) in
          if \<not> snd (snd st) then (fst st, fst (snd st))
          else bellman_ford_loop g (iter + 1) (fst st) (fst (snd st))
      else (dist, prev))"
  by pat_completeness auto
termination
  by (relation "measure (\<lambda>(g, iter, dist, prev). num_vertices g - 1 - iter)") auto

declare bellman_ford_loop.simps [simp del]

definition bellman_ford_shortest_path :: "Graph \<Rightarrow> nat \<Rightarrow> nat \<Rightarrow> int" where
  "bellman_ford_shortest_path g source target =
     (let n = num_vertices g in
        if source \<ge> n \<or> target \<ge> n then INT_MAX
        else if n = 0 then INT_MAX
        else
          let dist = (replicate n INT_MAX)[source := 0];
              prev = replicate n SIZE_MAX
          in fst (bellman_ford_loop g 0 dist prev) ! target)"

text \<open>
  Floyd-Warshall: row \<open>i\<close> of the two matrices starts as 0 on the diagonal and \<open>INT_MAX\<close>
  elsewhere, then every stored neighbour \<open>v\<close> of \<open>i\<close> gets distance 1; the main loop
  runs over \<open>k\<close>, \<open>i\<close>, \<open>j\<close> and updates the matrices in place.
\<close>

record FloydPathData =
  fw_dist :: "int list list"
  fw_pred :: "nat list list"
  fw_n :: nat

definition floyd_init_row :: "Graph \<Rightarrow> nat \<Rightarrow> int list \<times> nat list" where
  "floyd_init_row g i =
     fold (\<lambda>v (drow, prow).
             if v < num_vertices g then (drow[v := 1], prow[v := i]) else (drow, prow))
       (adj_list g i)
       (map (\<lambda>j. if i = j then 0 else INT_MAX) [0 ..< num_vertices g],
        replicate (num_vertices g) SIZE_MAX)"

definition floyd_step :: "nat \<Rightarrow> nat \<Rightarrow> nat \<Rightarrow> FloydPathData \<Rightarrow> FloydPathData" where
  "floyd_step k i j d =
     (if fw_dist d ! k ! j = INT_MAX then d
      else if fw_dist d ! i ! k > INT_MAX - fw_dist d ! k ! j then d
      else
        let alt = fw_dist d ! i ! k + fw_dist d ! k ! j in
          if alt < fw_dist d ! i ! j
          then d\<lparr>fw_dist := (fw_dist d)[i := (fw_dist d ! i)[j := alt]],
                 fw_pred := (fw_pred d)[i := (fw_pred d ! i)[j := fw_pred d ! k ! j]]\<rparr>
          else d)"

definition floyd_row :: "nat \<Rightarrow> nat \<Rightarrow> FloydPathData \<Rightarrow> FloydPathData" where
  "floyd_row k i d =
     (if fw_dist d ! i ! k = INT_MAX then d
      else fold (floyd_step k i) [0 ..< fw_n d] d)"

definition floyd_warshall_all_pairs :: "Graph \<Rightarrow> FloydPathData option" where
  "floyd_warshall_all_pairs g =
     (let n = num_vertices g in
        if n = 0 \<or> n > SIZE_MAX div sizeof_ptr then None
        else
          let rows = map (floyd_init_row g) [0 ..< n];
              d0 = \<lparr>fw_dist = map fst rows, fw_pred = map snd rows, fw_n = n\<rparr>
          in Some (fold (\<lambda>k d. fold (floyd_row k) [0 ..< n] d) [0 ..< n] d0))"

definition floyd_warshall_shortest_path :: "Graph \<Rightarrow> nat \<Rightarrow> nat \<Rightarrow> int" where
  "floyd_warshall_shortest_path g source target =
     (if source \<ge> num_vertices g \<or> target \<ge> num_vertices g then INT_MAX
      else if num_vertices g = 0 then INT_MAX
      else
        case floyd_warshall_all_pairs g of
          None \<Rightarrow> INT_MAX
        | Some d \<Rightarrow> fw_dist d ! source ! target)"

text \<open>Examples: one vertex with a loop on it, and a path 0 - 1 - 2 with a loop on 0.\<close>

definition g_loop :: Graph where
  "g_loop = snd (add_edge True True (the (create_graph 1 True)) 0 0)"

definition g_path_loop :: Graph where
  "g_path_loop =
     snd (add_edge True True (snd (add_edge True True (snd (add_edge True True
       (the (create_graph 3 False)) 0 1)) 1 2)) 0 0)"

section \<open>Vertex colouring\<close>

text \<open>
  Both routines keep the colours in an array of \<open>int\<close> that starts at -1 (no colour)
  and look for the least colour \<open>c\<close> with \<open>used[c]\<close> false, by the loop
  \<open>for (c = 0; c < (int)n; c++) if (!used[c]) break;\<close>. Each routine returns its error
  value when an allocation fails; whether the allocations succeed is a parameter.
\<close>

function first_free :: "bool list \<Rightarrow> int \<Rightarrow> int \<Rightarrow> int" where
  "first_free used n c =
     (if c < n then (if \<not> used ! nat c then c else first_free used n (c + 1)) else c)"
  by pat_completeness auto
termination
  by (relation "measure (\<lambda>(used, n, c). nat (n - c))") auto

declare first_free.simps [simp del]

text \<open>
  \<open>greedy_sequential_coloring\<close>: for each vertex in index order, mark the colours of its
  coloured valid neighbours, take the least free colour and keep the largest colour
  given so far. The result is the colour array and the value left in \<open>*out_ncolors\<close>,
  or \<open>None\<close> for NULL. The arrays \<open>color\<close> and \<open>used\<close> are tested together after the two
  calls of \<open>malloc\<close>: \<open>allocated\<close> says whether both succeed.
\<close>

definition greedy_used :: "nat \<Rightarrow> int list \<Rightarrow> nat list \<Rightarrow> bool list" where
  "greedy_used n color nbrs =
     fold (\<lambda>w used. if w < n \<and> color ! w \<ge> 0 then used[nat (color ! w) := True] else used)
       nbrs (replicate n False)"

definition greedy_step :: "Graph \<Rightarrow> nat \<Rightarrow> int list \<times> int \<Rightarrow> int list \<times> int" where
  "greedy_step g v st =
     (case st of (color, max_color) \<Rightarrow>
        let used = greedy_used (num_vertices g) color (adj_list g v);
            c = first_free used (int_of_size (num_vertices g)) 0
        in (color[v := c], if c > max_color then c else max_color))"

definition greedy_sequential_coloring :: "bool \<Rightarrow> Graph \<Rightarrow> (int list \<times> nat) option" where
  "greedy_sequential_coloring allocated g =
     (let n = num_vertices g in
        if n = 0 \<or> n > SIZE_MAX div sizeof_int then None
        else if \<not> allocated then None
        else
          let st = fold (greedy_step g) [0 ..< n] (replicate n (- 1), - 1)
          in Some (fst st, size_of_int (snd st + 1)))"

text \<open>
  \<open>dsatur_coloring\<close>. The state is the colour array, the saturation degrees, the matrix
  \<open>neighbor_colors\<close> and the largest colour; the degrees are the list sizes. The result is
  the status, the colour array (\<open>None\<close> for NULL) and the value left in \<open>*out_num_colors\<close>.
  The routine allocates in three places and returns -1 from each of them on a failure:
  the four arrays \<open>color\<close>, \<open>sat_deg\<close>, \<open>degree\<close> and \<open>neighbor_colors\<close>, tested together
  (\<open>allocated\<close> says whether all four succeed); the row \<open>neighbor_colors[v]\<close> of each vertex
  (\<open>row_allocated v\<close>); and the array \<open>used\<close> of each step of the main loop that has found a
  candidate (\<open>used_allocated step\<close>).
\<close>

record dsatur_state =
  ds_color :: "int list"
  ds_sat_deg :: "int list"
  ds_neighbor_colors :: "bool list list"
  ds_max_color :: int

definition dsatur_first :: "Graph \<Rightarrow> nat" where
  "dsatur_first g =
     fold (\<lambda>v first. if adj_size g ! v > adj_size g ! first then v else first)
       [1 ..< num_vertices g] 0"

definition dsatur_mark_first :: "nat \<Rightarrow> dsatur_state \<Rightarrow> dsatur_state" where
  "dsatur_mark_first u s =
     (if \<not> ds_neighbor_colors s ! u ! 0
      then s\<lparr>ds_neighbor_colors := (ds_neighbor_colors s)[u := (ds_neighbor_colors s ! u)[0 := True]],
             ds_sat_deg := (ds_sat_deg s)[u := ds_sat_deg s ! u + 1]\<rparr>
      else s)"

definition dsatur_mark :: "int \<Rightarrow> nat \<Rightarrow> dsatur_state \<Rightarrow> dsatur_state" where
  "dsatur_mark c u s =
     (if ds_color s ! u = - 1 \<and> \<not> ds_neighbor_colors s ! u ! nat c
      then s\<lparr>ds_neighbor_colors := (ds_neighbor_colors s)[u := (ds_neighbor_colors s ! u)[nat c := True]],
             ds_sat_deg := (ds_sat_deg s)[u := ds_sat_deg s ! u + 1]\<rparr>
      else s)"

definition dsatur_candidate :: "Graph \<Rightarrow> dsatur_state \<Rightarrow> int \<times> nat" where
  "dsatur_candidate g s =
     fold (\<lambda>v (max_sat, candidate).
             if ds_color s ! v \<noteq> - 1 then (max_sat, candidate)
             else if ds_sat_deg s ! v > max_sat \<or>
                     (ds_sat_deg s ! v = max_sat \<and>
                      adj_size g ! v > (if candidate \<noteq> SIZE_MAX then adj_size g ! candidate else 0))
               then (ds_sat_deg s ! v, v)
             else (max_sat, candidate))
       [0 ..< num_vertices g] (- 1, SIZE_MAX)"

definition dsatur_used :: "nat \<Rightarrow> int list \<Rightarrow> nat list \<Rightarrow> bool list" where
  "dsatur_used n color nbrs =
     fold (\<lambda>u used. if color ! u \<noteq> - 1 then used[nat (color ! u) := True] else used)
       nbrs (replicate n False)"

function dsatur_loop ::
  "(nat \<Rightarrow> bool) \<Rightarrow> Graph \<Rightarrow> nat \<Rightarrow> dsatur_state \<Rightarrow> dsatur_state option" where
  "dsatur_loop used_allocated g step s =
     (if step < num_vertices g then
        let candidate = snd (dsatur_candidate g s) in
          if candidate = SIZE_MAX then Some s
          else if \<not> used_allocated step then None
          else
            let used = dsatur_used (num_vertices g) (ds_color s) (adj_list g candidate);
                c = first_free used (int_of_size (num_vertices g)) 0;
                s1 = s\<lparr>ds_color := (ds_color s)[candidate := c],
                       ds_max_color := (if c > ds_max_color s then c else ds_max_color s)\<rparr>;
                s2 = fold (dsatur_mark c) (adj_list g candidate) s1
            in dsatur_loop used_allocated g (step + 1) s2
      else Some s)"
  by pat_completeness auto
termination
  by (relation "measure (\<lambda>(used_allocated, g, step, s). num_vertices g - step)") auto

declare dsatur_loop.simps [simp del]

definition dsatur_coloring ::
  "bool \<Rightarrow> (nat \<Rightarrow> bool) \<Rightarrow> (nat \<Rightarrow> bool) \<Rightarrow> Graph \<Rightarrow> int \<times> int list option \<times> int" where
  "dsatur_coloring allocated row_allocated used_allocated g =
     (let n = num_vertices g in
        if n = 0 then (0, None, 0)
        else if \<not> allocated then (- 1, None, 0)
        else if \<not> list_all row_allocated [0 ..< n] then (- 1, None, 0)
        else
          let first = dsatur_first g;
              s0 = \<lparr>ds_color = (replicate n (- 1))[first := 0],
                    ds_sat_deg = replicate n 0,
                    ds_neighbor_colors = replicate n (replicate n False),
                    ds_max_color = 0\<rparr>;
              s1 = fold dsatur_mark_first (adj_list g first) s0
          in
            case dsatur_loop used_allocated g 1 s1 of
              None \<Rightarrow> (- 1, None, 0)
            | Some s2 \<Rightarrow> (0, Some (ds_color s2), ds_max_color s2 + 1))"

text \<open>
  A colouring is proper when no two distinct vertices joined by a stored edge have the
  same colour. A graph of the store has between 1 and \<open>GRAFO_MAX_VERTICES\<close> vertices.
\<close>

definition proper_coloring :: "Graph \<Rightarrow> int list \<Rightarrow> bool" where
  "proper_coloring g color \<longleftrightarrow>
     (\<forall>u \<in> {0 ..< num_vertices g}. \<forall>v \<in> set (adj_list g u). u \<noteq> v \<longrightarrow> color ! u \<noteq> color ! v)"

definition store_graph :: "Graph \<Rightarrow> bool" where
  "store_graph g \<longleftrightarrow>
     wf_graph g \<and> 0 < num_vertices g \<and> num_vertices g \<le> GRAFO_MAX_VERTICES"

text \<open>Examples: the directed edge 0 \<rightarrow> 1, and the undirected triangle with a pendant vertex.\<close>

definition g_arrow :: Graph where
  "g_arrow = snd (add_edge True True (the (create_graph 2 True)) 0 1)"

definition g_triangle_tail :: Graph where
  "g_triangle_tail =
     snd (add_edge True True (snd (add_edge True True (snd (add_edge True True
       (snd (add_edge True True (the (create_graph 4 False)) 0 1)) 1 2)) 2 0)) 2 3)"

text \<open>
  Auxiliary notions of the proofs: the invariant of the greedy loop, the set of coloured
  vertices, the invariant of DSATUR, and the step and the invariant of its candidate scan.
\<close>

definition greedy_inv :: "Graph \<Rightarrow> nat \<Rightarrow> int list \<Rightarrow> bool" where
  "greedy_inv g v color \<longleftrightarrow>
     length color = num_vertices g \<and>
     (\<forall>w < v. 0 \<le> color ! w \<and> color ! w \<le> int w) \<and>
     (\<forall>w. v \<le> w \<and> w < num_vertices g \<longrightarrow> color ! w = - 1) \<and>
     (\<forall>a < v. \<forall>b < v. b \<in> set (adj_list g a) \<longrightarrow> a \<noteq> b \<longrightarrow> color ! a \<noteq> color ! b)"

definition colored :: "Graph \<Rightarrow> int list \<Rightarrow> nat set" where
  "colored g color = {v. v < num_vertices g \<and> color ! v \<noteq> - 1}"

definition ds_inv :: "Graph \<Rightarrow> nat \<Rightarrow> dsatur_state \<Rightarrow> bool" where
  "ds_inv g k s \<longleftrightarrow>
     length (ds_color s) = num_vertices g \<and> length (ds_sat_deg s) = num_vertices g \<and>
     (\<forall>v < num_vertices g. 0 \<le> ds_sat_deg s ! v) \<and>
     card (colored g (ds_color s)) = k \<and>
     (\<forall>v \<in> colored g (ds_color s). 0 \<le> ds_color s ! v \<and> ds_color s ! v < int k) \<and>
     (\<forall>a \<in> colored g (ds_color s). \<forall>b \<in> colored g (ds_color s).
        b \<in> set (adj_list g a) \<longrightarrow> a \<noteq> b \<longrightarrow> ds_color s ! a \<noteq> ds_color s ! b)"

definition cand_step :: "int list \<Rightarrow> int list \<Rightarrow> nat list \<Rightarrow> nat \<Rightarrow> int \<times> nat \<Rightarrow> int \<times> nat" where
  "cand_step color sat deg = (\<lambda>v (max_sat, candidate).
             if color ! v \<noteq> - 1 then (max_sat, candidate)
             else if sat ! v > max_sat \<or>
                     (sat ! v = max_sat \<and>
                      deg ! v > (if candidate \<noteq> SIZE_MAX then deg ! candidate else 0))
               then (sat ! v, v)
             else (max_sat, candidate))"

definition cand_ok :: "int list \<Rightarrow> int list \<Rightarrow> nat \<Rightarrow> int \<times> nat \<Rightarrow> bool" where
  "cand_ok color sat j st \<longleftrightarrow>
     (snd st = SIZE_MAX \<and> fst st = - 1 \<and> (\<forall>v < j. color ! v \<noteq> - 1)) \<or>
     (snd st < j \<and> color ! snd st = - 1 \<and> fst st = sat ! snd st)"

section \<open>Topological order\<close>

text \<open>
  \<open>topological_sort\<close> is Kahn's algorithm. Its three arrays have one slot per vertex;
  the routine tests the three allocations together and returns NULL if one of them
  failed, so one Boolean, \<open>allocated\<close>, says whether all three succeed. The queue is the list of the slots written so far
  (\<open>back\<close> is its length) and \<open>front\<close> an index into it; \<open>order\<close> is the list of the
  slots written so far and \<open>idx\<close> its length. A counter of type \<open>size_t\<close> that is
  incremented once per stored neighbour cannot wrap, as the neighbours lie in memory; the
  decrement \<open>--in_degree[v]\<close> is modelled with its wrap at zero. The result of a loop is
  \<open>None\<close> when it would write or read past the end of one of the arrays, which is
  undefined behaviour in C; the theorems show that this does not happen.
\<close>

definition in_degree_entry :: "nat \<Rightarrow> nat \<Rightarrow> nat list option \<Rightarrow> nat list option" where
  "in_degree_entry n v st =
     (case st of
        None \<Rightarrow> None
      | Some in_degree \<Rightarrow>
          if v \<ge> n then None else Some (in_degree[v := in_degree ! v + 1]))"

definition in_degrees :: "Graph \<Rightarrow> nat list option" where
  "in_degrees g =
     fold (\<lambda>u st. fold (in_degree_entry (num_vertices g)) (adj_list g u) st)
       [0 ..< num_vertices g] (Some (replicate (num_vertices g) 0))"

definition kahn_relax ::
  "nat \<Rightarrow> nat \<Rightarrow> (nat list \<times> nat list) option \<Rightarrow> (nat list \<times> nat list) option" where
  "kahn_relax n v st =
     (case st of
        None \<Rightarrow> None
      | Some (in_degree, queue) \<Rightarrow>
          let d = size_dec (in_degree ! v) in
            if d = 0 then
              if length queue \<ge> n then None
              else Some (in_degree[v := d], queue @ [v])
            else Some (in_degree[v := d], queue))"

function kahn_loop ::
  "Graph \<Rightarrow> nat list \<Rightarrow> nat list \<Rightarrow> nat \<Rightarrow> nat list \<Rightarrow> (nat list \<times> nat) option" where
  "kahn_loop g in_degree queue front order =
     (if front < length queue then
        if front \<ge> num_vertices g then None
        else
          case fold (kahn_relax (num_vertices g)) (adj_list g (queue ! front))
                 (Some (in_degree, queue)) of
            None \<Rightarrow> None
          | Some (in_degree', queue') \<Rightarrow>
              kahn_loop g in_degree' queue' (front + 1) (order @ [queue ! front])
      else Some (order, length order))"
  by pat_completeness auto
termination
  by (relation "measure (\<lambda>(g, in_degree, queue, front, order). num_vertices g - front)") auto

declare kahn_loop.simps [simp del]

text \<open>
  The result of \<open>topological_sort\<close>: \<open>Some None\<close> is the NULL it returns, \<open>Some (Some order)\<close>
  the array it returns, \<open>None\<close> undefined behaviour.
\<close>

definition topological_sort :: "bool \<Rightarrow> Graph \<Rightarrow> nat list option option" where
  "topological_sort allocated g =
     (if \<not> directed g then Some None
      else if num_vertices g = 0 then Some None
      else if \<not> allocated then Some None
      else
        case in_degrees g of
          None \<Rightarrow> Some None
        | Some in_degree \<Rightarrow>
            (case kahn_loop g in_degree
                    (filter (\<lambda>v. in_degree ! v = 0) [0 ..< num_vertices g]) 0 [] of
               None \<Rightarrow> None
             | Some (order, idx) \<Rightarrow>
                 if idx \<noteq> num_vertices g then Some None else Some (Some order)))"

text \<open>
  The stored edges, a directed cycle, and an array in which the source of every stored
  edge stands strictly before its destination.
\<close>

definition edge_list :: "Graph \<Rightarrow> (nat \<times> nat) list" where
  "edge_list g = concat (map (\<lambda>u. map (Pair u) (adj_list g u)) [0 ..< num_vertices g])"

definition edge_rel :: "Graph \<Rightarrow> (nat \<times> nat) set" where
  "edge_rel g = set (edge_list g)"

definition has_directed_cycle :: "Graph \<Rightarrow> bool" where
  "has_directed_cycle g \<longleftrightarrow> (\<exists>x \<in> {0 ..< num_vertices g}. (x, x) \<in> (edge_rel g)\<^sup>+)"

definition edges_forward :: "Graph \<Rightarrow> nat list \<Rightarrow> bool" where
  "edges_forward g order \<longleftrightarrow>
     (\<forall>(u, v) \<in> edge_rel g.
        \<exists>j \<in> {0 ..< length order}. \<exists>i \<in> {0 ..< j}. order ! i = u \<and> order ! j = v)"

text \<open>Examples: the edges 0 \<rightarrow> 1, 1 \<rightarrow> 2, 0 \<rightarrow> 2, and the directed triangle.\<close>

definition g_dag :: Graph where
  "g_dag =
     snd (add_edge True True (snd (add_edge True True (snd (add_edge True True
       (the (create_graph 3 True)) 0 1)) 1 2)) 0 2)"

definition g_cycle :: Graph where
  "g_cycle =
     snd (add_edge True True (snd (add_edge True True (snd (add_edge True True
       (the (create_graph 3 True)) 0 1)) 1 2)) 2 0)"

text \<open>
  Auxiliary notions of the proofs: the number of stored edges into \<open>v\<close> that leave a vertex
  outside \<open>P\<close>, and the invariant of Kahn's loop.
\<close>

definition pend :: "Graph \<Rightarrow> nat set \<Rightarrow> nat \<Rightarrow> nat" where
  "pend g P v = (\<Sum>w \<in> {..< num_vertices g} - P. count_list (adj_list g w) v)"

definition kahn_inv :: "Graph \<Rightarrow> nat list \<Rightarrow> nat list \<Rightarrow> nat \<Rightarrow> bool" where
  "kahn_inv g in_degree queue front \<longleftrightarrow>
     length in_degree = num_vertices g \<and> distinct queue \<and> set queue \<subseteq> {..< num_vertices g} \<and>
     front \<le> length queue \<and>
     (\<forall>v < num_vertices g. in_degree ! v = pend g (set (take front queue)) v) \<and>
     (\<forall>v < num_vertices g. v \<in> set queue \<longleftrightarrow> in_degree ! v = 0) \<and>
     (\<forall>j < length queue. \<forall>w < num_vertices g.
        queue ! j \<in> set (adj_list g w) \<longrightarrow> w \<in> set (take j queue))"

section \<open>Minimum spanning tree\<close>






















section \<open>Maximum flow and minimum cut\<close>

text \<open>
  \<open>edmonds_karp_max_flow\<close> and \<open>min_cut\<close> take the capacities as a matrix of \<open>int\<close>, here a
  list of rows. Both start with the same text: they copy the matrix into \<open>residual\<close> and
  run the same \<open>while (1)\<close> loop, which is modelled once. Every allocation is assumed to
  succeed. The result of a routine is \<open>None\<close> when it reads or writes past the end of an
  array, when a signed addition overflows (both undefined in C), or when it does not
  return.

  One search for an augmenting path: \<open>visited\<close>, \<open>parent\<close> and the queue, which is the
  list of the slots written so far (\<open>back\<close> is its length) with \<open>front\<close> an index into it.
  The scan of the neighbours of \<open>u\<close> stops at the sink (\<open>found\<close>); the loop over the queue
  stops when the scan has found it.
\<close>

type_synonym bfs_state = "bool list \<times> int list \<times> nat list \<times> bool"

fun bfs_scan ::
  "nat \<Rightarrow> int list list \<Rightarrow> nat \<Rightarrow> nat \<Rightarrow> nat list \<Rightarrow> bfs_state \<Rightarrow> bfs_state option" where
  "bfs_scan n residual sink u [] st = Some st"
| "bfs_scan n residual sink u (v # vs) (visited, parent, queue, found) =
     (if v \<ge> n then None
      else if \<not> visited ! v \<and> residual ! u ! v > 0 then
        if v = sink then Some (visited, parent[v := int_of_size u], queue, True)
        else if length queue \<ge> n then None
        else bfs_scan n residual sink u vs
               (visited[v := True], parent[v := int_of_size u], queue @ [v], found)
      else bfs_scan n residual sink u vs (visited, parent, queue, found))"

function bfs_loop ::
  "Graph \<Rightarrow> int list list \<Rightarrow> nat \<Rightarrow> nat \<Rightarrow> bfs_state \<Rightarrow> bfs_state option" where
  "bfs_loop g residual sink front (visited, parent, queue, found) =
     (if front < length queue then
        if front \<ge> num_vertices g then None
        else
          case bfs_scan (num_vertices g) residual sink (queue ! front)
                 (adj_list g (queue ! front)) (visited, parent, queue, found) of
            None \<Rightarrow> None
          | Some st \<Rightarrow>
              if snd (snd (snd st)) then Some st
              else bfs_loop g residual sink (front + 1) st
      else Some (visited, parent, queue, found))"
  by pat_completeness auto
termination
  by (relation "measure (\<lambda>(g, residual, sink, front, st). num_vertices g - front)") auto

declare bfs_loop.simps [simp del]

definition augmenting_bfs :: "Graph \<Rightarrow> int list list \<Rightarrow> nat \<Rightarrow> nat \<Rightarrow> bfs_state option" where
  "augmenting_bfs g residual source sink =
     bfs_loop g residual sink 0
       ((replicate (num_vertices g) False)[source := True],
        replicate (num_vertices g) (- 1), [source], False)"

text \<open>
  The two walks from the sink back to the source along \<open>parent\<close>: the least residual
  capacity on the path, and the update of the residual capacities. \<open>(size_t)parent[v]\<close>
  is an index only if it is below the number of vertices.
\<close>

partial_function (option) path_flow_walk ::
  "int list list \<Rightarrow> int list \<Rightarrow> nat \<Rightarrow> nat \<Rightarrow> int \<Rightarrow> int option" where
  "path_flow_walk residual parent source v path_flow =
     (if v = source then Some path_flow
      else if size_of_int (parent ! v) \<ge> length residual then None
      else path_flow_walk residual parent source (size_of_int (parent ! v))
             (if residual ! size_of_int (parent ! v) ! v < path_flow
              then residual ! size_of_int (parent ! v) ! v else path_flow))"

declare path_flow_walk.simps [code]

definition push_edge :: "int list list \<Rightarrow> nat \<Rightarrow> nat \<Rightarrow> int \<Rightarrow> int list list" where
  "push_edge residual u v path_flow =
     (let r1 = residual[u := (residual ! u)[v := residual ! u ! v - path_flow]]
      in r1[v := (r1 ! v)[u := r1 ! v ! u + path_flow]])"

partial_function (option) update_walk ::
  "int list list \<Rightarrow> int list \<Rightarrow> nat \<Rightarrow> nat \<Rightarrow> int \<Rightarrow> int list list option" where
  "update_walk residual parent source v path_flow =
     (if v = source then Some residual
      else if size_of_int (parent ! v) \<ge> length residual then None
      else if residual ! size_of_int (parent ! v) ! v - path_flow < - INT_MAX - 1
              \<or> residual ! v ! size_of_int (parent ! v) + path_flow > INT_MAX then None
      else update_walk (push_edge residual (size_of_int (parent ! v)) v path_flow)
             parent source (size_of_int (parent ! v)) path_flow)"

declare update_walk.simps [code]

text \<open>
  The loop \<open>while (1)\<close>: it ends when no path is found, with the flow and the residual
  capacities, or at the overflow check, where both routines return -1.
\<close>

datatype flow_result = Overflow | Flow int "int list list"

partial_function (option) augment_loop ::
  "Graph \<Rightarrow> nat \<Rightarrow> nat \<Rightarrow> int list list \<Rightarrow> int \<Rightarrow> flow_result option" where
  "augment_loop g source sink residual max_flow =
     Option.bind (augmenting_bfs g residual source sink) (\<lambda>st.
       if \<not> snd (snd (snd st)) then Some (Flow max_flow residual)
       else
         Option.bind (path_flow_walk residual (fst (snd st)) source sink INT_MAX) (\<lambda>path_flow.
           Option.bind (update_walk residual (fst (snd st)) source sink path_flow) (\<lambda>residual'.
             if max_flow > INT_MAX - path_flow then Some Overflow
             else augment_loop g source sink residual' (max_flow + path_flow))))"

declare augment_loop.simps [code]

definition copy_matrix :: "nat \<Rightarrow> int list list \<Rightarrow> int list list" where
  "copy_matrix n capacity = map (\<lambda>i. map (\<lambda>j. capacity ! i ! j) [0 ..< n]) [0 ..< n]"

definition edmonds_karp_max_flow :: "Graph \<Rightarrow> int list list \<Rightarrow> nat \<Rightarrow> nat \<Rightarrow> int option" where
  "edmonds_karp_max_flow g capacity source sink =
     (let n = num_vertices g in
        if source \<ge> n \<or> sink \<ge> n \<or> source = sink then Some (- 1)
        else
          case augment_loop g source sink (copy_matrix n capacity) 0 of
            None \<Rightarrow> None
          | Some Overflow \<Rightarrow> Some (- 1)
          | Some (Flow max_flow residual) \<Rightarrow> Some max_flow)"

text \<open>
  The second part of \<open>min_cut\<close>: the search from the source that marks \<open>reachable\<close>, and
  the loop that writes the cut into the array \<open>cut\<close> of \<open>n * n\<close> edges, here \<open>cuts\<close>.
\<close>

fun reach_scan ::
  "nat \<Rightarrow> int list list \<Rightarrow> nat \<Rightarrow> nat list \<Rightarrow> bool list \<times> nat list \<Rightarrow>
   (bool list \<times> nat list) option" where
  "reach_scan n residual u [] st = Some st"
| "reach_scan n residual u (v # vs) (reachable, queue) =
     (if v \<ge> n then None
      else if \<not> reachable ! v \<and> residual ! u ! v > 0 then
        if length queue \<ge> n then None
        else reach_scan n residual u vs (reachable[v := True], queue @ [v])
      else reach_scan n residual u vs (reachable, queue))"

function reach_loop ::
  "Graph \<Rightarrow> int list list \<Rightarrow> nat \<Rightarrow> bool list \<times> nat list \<Rightarrow> (bool list \<times> nat list) option" where
  "reach_loop g residual front (reachable, queue) =
     (if front < length queue then
        if front \<ge> num_vertices g then None
        else
          case reach_scan (num_vertices g) residual (queue ! front)
                 (adj_list g (queue ! front)) (reachable, queue) of
            None \<Rightarrow> None
          | Some st \<Rightarrow> reach_loop g residual (front + 1) st
      else Some (reachable, queue))"
  by pat_completeness auto
termination
  by (relation "measure (\<lambda>(g, residual, front, st). num_vertices g - front)") auto

declare reach_loop.simps [simp del]

fun cut_scan ::
  "nat \<Rightarrow> int list list \<Rightarrow> bool list \<Rightarrow> nat \<Rightarrow> nat list \<Rightarrow> Edge list \<Rightarrow> Edge list option" where
  "cut_scan n capacity reachable u [] cuts = Some cuts"
| "cut_scan n capacity reachable u (v # vs) cuts =
     (if v \<ge> n then None
      else if \<not> reachable ! v \<and> capacity ! u ! v > 0 then
        if length cuts \<ge> n * n then None
        else cut_scan n capacity reachable u vs (cuts @ [\<lparr>v1 = u, v2 = v\<rparr>])
      else cut_scan n capacity reachable u vs cuts)"

definition cut_vertex ::
  "Graph \<Rightarrow> int list list \<Rightarrow> bool list \<Rightarrow> nat \<Rightarrow> Edge list option \<Rightarrow> Edge list option" where
  "cut_vertex g capacity reachable u st =
     (case st of
        None \<Rightarrow> None
      | Some cuts \<Rightarrow>
          if \<not> reachable ! u then Some cuts
          else cut_scan (num_vertices g) capacity reachable u (adj_list g u) cuts)"

text \<open>
  \<open>min_cut\<close> returns its value, the array left in \<open>*out_cut\<close> (\<open>None\<close> for NULL) and the
  number left in \<open>*out_ncut\<close>.
\<close>

definition min_cut ::
  "Graph \<Rightarrow> int list list \<Rightarrow> nat \<Rightarrow> nat \<Rightarrow> (int \<times> Edge list option \<times> nat) option" where
  "min_cut g capacity source sink =
     (let n = num_vertices g in
        if source \<ge> n \<or> sink \<ge> n \<or> source = sink then Some (- 1, None, 0)
        else
          case augment_loop g source sink (copy_matrix n capacity) 0 of
            None \<Rightarrow> None
          | Some Overflow \<Rightarrow> Some (- 1, None, 0)
          | Some (Flow max_flow residual) \<Rightarrow>
              (case reach_loop g residual 0 ((replicate n False)[source := True], [source]) of
                 None \<Rightarrow> None
               | Some (reachable, queue) \<Rightarrow>
                   (case fold (cut_vertex g capacity reachable) [0 ..< n] (Some []) of
                      None \<Rightarrow> None
                    | Some cuts \<Rightarrow> Some (max_flow, Some cuts, length cuts))))"

text \<open>
  The residual graph has an arc from \<open>u\<close> to \<open>v\<close> whenever the residual capacity
  \<open>residual[u][v]\<close> is positive, also when it is the reverse of a stored edge that carries
  flow. \<open>residual_reachable\<close> is the set of the vertices the source reaches in it, and
  \<open>crossing\<close> the stored edges with positive capacity that leave a set of vertices.
\<close>

definition residual_rel :: "nat \<Rightarrow> int list list \<Rightarrow> (nat \<times> nat) set" where
  "residual_rel n residual = {(u, v). u < n \<and> v < n \<and> residual ! u ! v > 0}"

definition residual_reachable :: "nat \<Rightarrow> int list list \<Rightarrow> nat \<Rightarrow> nat set" where
  "residual_reachable n residual source = {v. (source, v) \<in> (residual_rel n residual)\<^sup>*}"

definition crossing :: "Graph \<Rightarrow> int list list \<Rightarrow> nat set \<Rightarrow> (nat \<times> nat) set" where
  "crossing g capacity S =
     {(u, v). (u, v) \<in> edge_rel g \<and> u \<in> S \<and> v \<notin> S \<and> capacity ! u ! v > 0}"

definition cut_capacity :: "int list list \<Rightarrow> Edge list \<Rightarrow> int" where
  "cut_capacity capacity cuts = sum_list (map (\<lambda>e. capacity ! v1 e ! v2 e) cuts)"

text \<open>
  Example: the directed graph with the edges 0 \<rightarrow> 1, 0 \<rightarrow> 3, 1 \<rightarrow> 2, 3 \<rightarrow> 2 and 2 \<rightarrow> 4, of
  capacity 5 on 0 \<rightarrow> 3 and 3 \<rightarrow> 2 and capacity 1 on the three others, and the residual
  capacities after one unit of flow along 0 \<rightarrow> 1 \<rightarrow> 2 \<rightarrow> 4.
\<close>

definition g_flow :: Graph where
  "g_flow =
     snd (add_edge True True (snd (add_edge True True (snd (add_edge True True
       (snd (add_edge True True (snd (add_edge True True
         (the (create_graph 5 True)) 0 1)) 0 3)) 1 2)) 3 2)) 2 4)"

definition c_flow :: "int list list" where
  "c_flow =
     [[0, 1, 0, 5, 0],
      [0, 0, 1, 0, 0],
      [0, 0, 0, 0, 1],
      [0, 0, 5, 0, 0],
      [0, 0, 0, 0, 0]]"

definition r_flow :: "int list list" where
  "r_flow =
     [[0, 0, 0, 5, 0],
      [1, 0, 0, 0, 0],
      [0, 1, 0, 0, 0],
      [0, 0, 5, 0, 0],
      [0, 0, 1, 0, 0]]"
section \<open>Properties of the graph store\<close>

lemma wf_graph_alt:
  "wf_graph g \<longleftrightarrow>
     length (adj g) = num_vertices g \<and> length (adj_size g) = num_vertices g \<and>
     (\<forall>v < num_vertices g. adj_size g ! v \<le> length (adj g ! v) \<and>
        length (adj g ! v) * sizeof_size_t \<le> SIZE_MAX)"
  by (simp add: wf_graph_def Ball_def)

lemma valid_entries_alt:
  "valid_entries g \<longleftrightarrow>
     (\<forall>v < num_vertices g. \<forall>w \<in> set (adj_list g v). w < num_vertices g)"
  by (simp add: valid_entries_def Ball_def)

lemma symmetric_alt:
  "symmetric g \<longleftrightarrow>
     (\<forall>u < num_vertices g. \<forall>v < num_vertices g.
        u \<noteq> v \<longrightarrow> count_list (adj_list g u) v = count_list (adj_list g v) u)"
  by (simp add: symmetric_def Ball_def)

lemma valid_entriesD:
  "valid_entries g \<Longrightarrow> u < num_vertices g \<Longrightarrow> w \<in> set (adj_list g u) \<Longrightarrow> w < num_vertices g"
  by (simp add: valid_entries_alt)

lemma count_list_pos_iff: "count_list xs x > 0 \<longleftrightarrow> x \<in> set xs"
  by (induction xs) auto

lemma symmetric_mem:
  assumes "symmetric g" "valid_entries g" "u < num_vertices g" "v \<in> set (adj_list g u)" "u \<noteq> v"
  shows "v < num_vertices g \<and> u \<in> set (adj_list g v)"
proof -
  have v: "v < num_vertices g" using assms(2-4) by (auto simp: valid_entries_alt)
  have "count_list (adj_list g u) v > 0" using assms(4) by (simp add: count_list_pos_iff)
  then have "count_list (adj_list g v) u > 0" using assms(1,3,5) v by (simp add: symmetric_alt)
  then show ?thesis using v by (simp add: count_list_pos_iff)
qed

lemma edge_rel_iff: "(u, v) \<in> edge_rel g \<longleftrightarrow> u < num_vertices g \<and> v \<in> set (adj_list g u)"
  by (auto simp: edge_rel_def edge_list_def)
lemma find_edge_Some:
  "find_edge buf sz d i = Some k \<Longrightarrow> i \<le> k \<and> k < sz \<and> buf ! k = d \<and> (\<forall>j. i \<le> j \<and> j < k \<longrightarrow> buf ! j \<noteq> d)"
proof (induction buf sz d i rule: find_edge.induct)
  case (1 buf sz dest i)
  show ?case
  proof (cases "i < sz \<and> buf ! i \<noteq> dest")
    case True
    with "1.prems" have "find_edge buf sz dest (i + 1) = Some k" by (subst (asm) find_edge.simps) simp
    with "1.IH" True have h: "i + 1 \<le> k \<and> k < sz \<and> buf ! k = dest \<and> (\<forall>j. i + 1 \<le> j \<and> j < k \<longrightarrow> buf ! j \<noteq> dest)"
      by simp
    have "\<And>j. i \<le> j \<Longrightarrow> j < k \<Longrightarrow> buf ! j \<noteq> dest"
    proof -
      fix j assume "i \<le> j" "j < k"
      then show "buf ! j \<noteq> dest" using h True by (cases "j = i") auto
    qed
    with h show ?thesis by auto
  next
    case False
    with "1.prems" show ?thesis by (subst (asm) find_edge.simps) (auto split: if_splits)
  qed
qed

lemma find_edge_None:
  "find_edge buf sz d i = None \<Longrightarrow> i \<le> j \<Longrightarrow> j < sz \<Longrightarrow> buf ! j \<noteq> d"
proof (induction buf sz d i rule: find_edge.induct)
  case (1 buf sz dest i)
  from "1.prems" have isz: "i < sz" by simp
  with "1.prems"(1) have ne: "buf ! i \<noteq> dest" by (subst (asm) find_edge.simps) (auto split: if_splits)
  with isz "1.prems"(1) have r: "find_edge buf sz dest (i + 1) = None" by (subst (asm) find_edge.simps) simp
  show ?case
  proof (cases "j = i")
    case True with ne show ?thesis by simp
  next
    case False
    with "1.prems" have "i + 1 \<le> j" by simp
    with "1.IH"[OF isz ne r] "1.prems" show ?thesis by simp
  qed
qed

lemma shift_left_length: "length (shift_left buf sz j) = length buf"
proof (induction buf sz j rule: shift_left.induct)
  case (1 buf sz j)
  show ?case
  proof (cases "j + 1 < sz")
    case True
    then have "shift_left buf sz j = shift_left (buf[j := buf ! (j + 1)]) sz (j + 1)"
      by (subst shift_left.simps) simp
    with 1[OF True] show ?thesis by simp
  next
    case False then show ?thesis by (subst shift_left.simps) simp
  qed
qed

lemma shift_left_nth:
  "sz \<le> length buf \<Longrightarrow> k < length buf \<Longrightarrow>
   shift_left buf sz j ! k = (if j \<le> k \<and> k + 1 < sz then buf ! (k + 1) else buf ! k)"
proof (induction buf sz j arbitrary: k rule: shift_left.induct)
  case (1 buf sz j)
  show ?case
  proof (cases "j + 1 < sz")
    case True
    have "shift_left buf sz j ! k = shift_left (buf[j := buf ! (j + 1)]) sz (j + 1) ! k"
      using True by (subst shift_left.simps) simp
    also have "\<dots> = (if j + 1 \<le> k \<and> k + 1 < sz then (buf[j := buf ! (j + 1)]) ! (k + 1) else (buf[j := buf ! (j + 1)]) ! k)"
      using "1.IH"[OF True, of k] "1.prems" by simp
    also have "\<dots> = (if j \<le> k \<and> k + 1 < sz then buf ! (k + 1) else buf ! k)"
      using True "1.prems" by (auto simp: nth_list_update)
    finally show ?thesis .
  next
    case False
    then show ?thesis by (subst shift_left.simps) auto
  qed
qed

lemma take_shift_left:
  assumes "sz \<le> length buf" "i < sz"
  shows "take (sz - 1) (shift_left buf sz i) = take i (take sz buf) @ drop (i + 1) (take sz buf)"
proof (rule nth_equalityI)
  show "length (take (sz - 1) (shift_left buf sz i)) = length (take i (take sz buf) @ drop (i + 1) (take sz buf))"
    using assms by (simp add: shift_left_length)
next
  fix k assume "k < length (take (sz - 1) (shift_left buf sz i))"
  then have k: "k < sz - 1" by simp
  then have "take (sz - 1) (shift_left buf sz i) ! k = shift_left buf sz i ! k" by simp
  also have "\<dots> = (if i \<le> k \<and> k + 1 < sz then buf ! (k + 1) else buf ! k)"
    using assms k by (intro shift_left_nth) auto
  also have "\<dots> = (take i (take sz buf) @ drop (i + 1) (take sz buf)) ! k"
    using assms k by (auto simp: nth_append min_def)
  finally show "take (sz - 1) (shift_left buf sz i) ! k = (take i (take sz buf) @ drop (i + 1) (take sz buf)) ! k" .
qed

lemma remove1_first_index:
  "k < length xs \<Longrightarrow> xs ! k = d \<Longrightarrow> (\<forall>j < k. xs ! j \<noteq> d) \<Longrightarrow> remove1 d xs = take k xs @ drop (k + 1) xs"
proof (induction xs arbitrary: k)
  case Nil then show ?case by simp
next
  case (Cons x xs)
  show ?case
  proof (cases k)
    case 0 with Cons.prems show ?thesis by simp
  next
    case (Suc k')
    with Cons.prems have "x \<noteq> d" by auto
    moreover have "remove1 d xs = take k' xs @ drop (k' + 1) xs"
      using Cons.prems Suc by (intro Cons.IH) auto
    ultimately show ?thesis using Suc by simp
  qed
qed

lemma size_wrap_id: "x \<le> SIZE_MAX \<Longrightarrow> size_wrap x = x"
  by (simp add: size_wrap_def)

lemma find_edge_remove1:
  assumes "sz \<le> length buf" "find_edge buf sz b 0 = Some i"
  shows "i < sz \<and> b \<in> set (take sz buf) \<and>
         take (sz - 1) (shift_left buf sz i) = remove1 b (take sz buf)"
proof -
  from find_edge_Some[OF assms(2)]
  have i: "i < sz" "buf ! i = b" "\<forall>j<i. buf ! j \<noteq> b" by auto
  have len: "i < length (take sz buf)" using i assms by simp
  have nth: "take sz buf ! i = b" using i by simp
  have first: "\<forall>j<i. take sz buf ! j \<noteq> b" using i by simp
  have "remove1 b (take sz buf) = take i (take sz buf) @ drop (i + 1) (take sz buf)"
    using remove1_first_index[OF len nth first] .
  moreover have "b \<in> set (take sz buf)" using len nth by (metis nth_mem)
  ultimately show ?thesis using take_shift_left[OF assms(1) i(1)] i(1) by simp
qed

lemma find_edge_None_set:
  assumes "sz \<le> length buf" "find_edge buf sz b 0 = None"
  shows "b \<notin> set (take sz buf)"
proof
  assume "b \<in> set (take sz buf)"
  then obtain j where "j < length (take sz buf)" "take sz buf ! j = b"
    by (auto simp: in_set_conv_nth)
  then have "j < sz" "buf ! j = b" by auto
  with find_edge_None[OF assms(2), of j] show False by simp
qed

lemma remove_first_NotFound:
  assumes "wf_graph g" "a < num_vertices g" "remove_first ok g a b = NotFound"
  shows "b \<notin> set (adj_list g a)"
proof -
  have sz: "adj_size g ! a \<le> length (adj g ! a)" using assms by (simp add: wf_graph_alt)
  have "find_edge (adj g ! a) (adj_size g ! a) b 0 = None"
    using assms(3) by (auto simp: remove_first_def Let_def split: option.splits if_splits)
  from find_edge_None_set[OF sz this] show ?thesis by (simp add: adj_list_def)
qed

lemma remove_first_changed:
  assumes wf: "wf_graph g" and a: "a < num_vertices g"
    and r: "remove_first ok g a b = Removed g' \<or> remove_first ok g a b = ReallocFailed g'"
  shows "b \<in> set (adj_list g a) \<and> adj_list g' a = remove1 b (adj_list g a) \<and>
         (\<forall>w. w \<noteq> a \<longrightarrow> adj_list g' w = adj_list g w) \<and>
         wf_graph g' \<and> same_shape g g'"
proof -
  let ?buf = "adj g ! a" and ?sz = "adj_size g ! a"
  have sz: "?sz \<le> length ?buf" and fit: "length ?buf * sizeof_size_t \<le> SIZE_MAX"
    and la: "length (adj g) = num_vertices g" and ls: "length (adj_size g) = num_vertices g"
    using wf a by (auto simp: wf_graph_alt)
  from r obtain i where f: "find_edge ?buf ?sz b 0 = Some i"
    by (auto simp: remove_first_def split: option.splits)
  from find_edge_remove1[OF sz f]
  have i: "i < ?sz" and mem: "b \<in> set (take ?sz ?buf)"
    and tk: "take (?sz - 1) (shift_left ?buf ?sz i) = remove1 b (take ?sz ?buf)" by auto
  let ?buf' = "shift_left ?buf ?sz i"
  have lb: "length ?buf' = length ?buf" by (rule shift_left_length)
  have dec: "size_dec ?sz = ?sz - 1" using i by (simp add: size_dec_def)
  have "?sz - 1 \<le> length ?buf" using sz by arith
  then have "(?sz - 1) * sizeof_size_t \<le> length ?buf * sizeof_size_t" by (rule mult_le_mono1)
  then have le: "(?sz - 1) * sizeof_size_t \<le> SIZE_MAX" using fit by linarith
  then have wrap: "size_wrap ((?sz - 1) * sizeof_size_t) = (?sz - 1) * sizeof_size_t"
    by (rule size_wrap_id)
  define blk where "blk = (case safe_realloc ok ?buf' ((?sz - 1) * sizeof_size_t) of
      None \<Rightarrow> (if ?sz - 1 > 0 then ?buf' else []) | Some p \<Rightarrow> p)"
  have g': "g' = g\<lparr>adj := (adj g)[a := blk], adj_size := (adj_size g)[a := ?sz - 1]\<rparr>"
    using r f a la ls dec wrap
    by (auto simp: remove_first_def Let_def blk_def split: option.splits if_splits)
  have blk_take: "take (?sz - 1) blk = take (?sz - 1) ?buf'"
    using sz lb by (auto simp: blk_def safe_realloc_def sizeof_size_t_def split: option.splits if_splits)
  have blk_len: "?sz - 1 \<le> length blk \<and> length blk \<le> length ?buf"
    using sz lb by (auto simp: blk_def safe_realloc_def sizeof_size_t_def split: option.splits if_splits)
  have 1: "adj_list g' a = remove1 b (adj_list g a)"
    using g' a la ls blk_take tk by (simp add: adj_list_def)
  have 2: "\<forall>w. w \<noteq> a \<longrightarrow> adj_list g' w = adj_list g w"
    using g' by (simp add: adj_list_def)
  have 3: "wf_graph g'"
    unfolding wf_graph_alt
  proof (intro conjI allI impI)
    show "length (adj g') = num_vertices g'" using g' la by simp
    show "length (adj_size g') = num_vertices g'" using g' ls by simp
  next
    fix v assume v: "v < num_vertices g'"
    show "adj_size g' ! v \<le> length (adj g' ! v)"
    proof (cases "v = a")
      case True then show ?thesis using g' la ls a blk_len by simp
    next
      case False then show ?thesis using g' wf v by (simp add: wf_graph_alt)
    qed
    show "length (adj g' ! v) * sizeof_size_t \<le> SIZE_MAX"
    proof (cases "v = a")
      case True
      then have "length (adj g' ! v) \<le> length ?buf" using g' la a blk_len by simp
      then have "length (adj g' ! v) * sizeof_size_t \<le> length ?buf * sizeof_size_t" by (rule mult_le_mono1)
      with fit show ?thesis by linarith
    next
      case False then show ?thesis using g' wf v by (simp add: wf_graph_alt)
    qed
  qed
  have 4: "same_shape g g'" using g' by (simp add: same_shape_def)
  from mem 1 2 3 4 show ?thesis by (simp add: adj_list_def)
qed

lemma no_overflow_bound:
  assumes "\<not> checa_overflow (x + 1) sizeof_size_t"
  shows "(x + 1) * sizeof_size_t \<le> SIZE_MAX"
proof -
  from assms have "sizeof_size_t \<le> SIZE_MAX div (x + 1)" by (simp add: checa_overflow_def)
  then have "(x + 1) * sizeof_size_t \<le> (x + 1) * (SIZE_MAX div (x + 1))" by (rule mult_le_mono2)
  also have "\<dots> \<le> SIZE_MAX" by (rule times_div_less_eq_dividend)
  finally show ?thesis .
qed

lemma grow_effect:
  assumes wf: "wf_graph g" and a: "a < num_vertices g"
    and no: "\<not> checa_overflow (size_wrap (adj_size g ! a + 1)) sizeof_size_t"
    and re: "safe_realloc ok (adj g ! a)
               (size_wrap (size_wrap (adj_size g ! a + 1) * sizeof_size_t)) = Some nb"
  shows "adj_list (grow g a x nb) = (adj_list g)(a := adj_list g a @ [x])"
    and "wf_graph (grow g a x nb)"
    and "same_shape g (grow g a x nb)"
    and "adj_size (grow g a x nb) = (adj_size g)[a := adj_size g ! a + 1]"
    and "size_dec (adj_size (grow g a x nb) ! a) = adj_size g ! a"
proof -
  let ?buf = "adj g ! a" and ?sz = "adj_size g ! a"
  have sz: "?sz \<le> length ?buf" and fit: "length ?buf * sizeof_size_t \<le> SIZE_MAX"
    and la: "length (adj g) = num_vertices g" and ls: "length (adj_size g) = num_vertices g"
    using wf a by (auto simp: wf_graph_alt)
  have "?sz + 1 \<le> SIZE_MAX" using fit sz by (simp add: sizeof_size_t_def SIZE_MAX_def)
  then have w1: "size_wrap (?sz + 1) = ?sz + 1" by (rule size_wrap_id)
  from no w1 have "\<not> checa_overflow (?sz + 1) sizeof_size_t" by simp
  then have "(?sz + 1) * sizeof_size_t \<le> SIZE_MAX" by (rule no_overflow_bound)
  then have w2: "size_wrap ((?sz + 1) * sizeof_size_t) = (?sz + 1) * sizeof_size_t"
    and fit': "(?sz + 1) * sizeof_size_t \<le> SIZE_MAX" by (simp_all add: size_wrap_id)
  from re w1 w2 have nb: "nb = take (?sz + 1) (?buf @ replicate (?sz + 1) 0)"
    by (auto simp: safe_realloc_def sizeof_size_t_def split: if_splits)
  then have lnb: "length nb = ?sz + 1" by simp
  have tnb: "take ?sz nb = take ?sz ?buf" using nb sz by simp
  have tk: "take (?sz + 1) (nb[?sz := x]) = take ?sz ?buf @ [x]"
  proof -
    have "take (?sz + 1) (nb[?sz := x]) = nb[?sz := x]" using lnb by simp
    also have "\<dots> = take ?sz nb @ [x]"
      using lnb by (simp add: upd_conv_take_nth_drop)
    finally show ?thesis using tnb by simp
  qed
  show "adj_list (grow g a x nb) = (adj_list g)(a := adj_list g a @ [x])"
  proof
    fix w show "adj_list (grow g a x nb) w = ((adj_list g)(a := adj_list g a @ [x])) w"
      using a la ls w1 tk by (cases "w = a") (simp_all add: grow_def adj_list_def)
  qed
  show "wf_graph (grow g a x nb)"
    unfolding wf_graph_alt
  proof (intro conjI allI impI)
    show "length (adj (grow g a x nb)) = num_vertices (grow g a x nb)" using la by (simp add: grow_def)
    show "length (adj_size (grow g a x nb)) = num_vertices (grow g a x nb)" using ls by (simp add: grow_def)
  next
    fix v assume v: "v < num_vertices (grow g a x nb)"
    show "adj_size (grow g a x nb) ! v \<le> length (adj (grow g a x nb) ! v)"
      using v wf a la ls w1 lnb by (cases "v = a") (simp_all add: grow_def wf_graph_alt)
    show "length (adj (grow g a x nb) ! v) * sizeof_size_t \<le> SIZE_MAX"
      using v wf a la ls fit' lnb by (cases "v = a") (simp_all add: grow_def wf_graph_alt)
  qed
  show "same_shape g (grow g a x nb)" by (simp add: same_shape_def grow_def)
  show "adj_size (grow g a x nb) = (adj_size g)[a := adj_size g ! a + 1]"
    using w1 by (simp add: grow_def)
  show "size_dec (adj_size (grow g a x nb) ! a) = adj_size g ! a"
    using w1 a ls by (simp add: grow_def size_dec_def)
qed

lemma add_edge_grow:
  "add_edge ok_src ok_dest g src dest =
     (if src \<ge> num_vertices g \<or> dest \<ge> num_vertices g then (- 2, g)
      else if checa_overflow (size_wrap (adj_size g ! src + 1)) sizeof_size_t then (- 3, g)
      else
        case safe_realloc ok_src (adj g ! src)
               (size_wrap (size_wrap (adj_size g ! src + 1) * sizeof_size_t)) of
          None \<Rightarrow> (- 4, g)
        | Some new_adj_src \<Rightarrow>
            let g2 = grow g src dest new_adj_src in
              if \<not> directed g then
                if checa_overflow (size_wrap (adj_size g2 ! dest + 1)) sizeof_size_t then
                  (- 3, g2\<lparr>adj_size := (adj_size g2)[src := size_dec (adj_size g2 ! src)]\<rparr>)
                else
                  case safe_realloc ok_dest (adj g2 ! dest)
                         (size_wrap (size_wrap (adj_size g2 ! dest + 1) * sizeof_size_t)) of
                    None \<Rightarrow>
                      (- 4, g2\<lparr>adj_size := (adj_size g2)[src := size_dec (adj_size g2 ! src)]\<rparr>)
                  | Some new_adj_dest \<Rightarrow> (0, grow g2 dest src new_adj_dest)
              else (0, g2))"
  by (simp add: add_edge_def grow_def Let_def split: option.splits)

lemma rollback_effect:
  assumes wf: "wf_graph g" and a: "a < num_vertices g"
    and no: "\<not> checa_overflow (size_wrap (adj_size g ! a + 1)) sizeof_size_t"
    and re: "safe_realloc ok (adj g ! a)
               (size_wrap (size_wrap (adj_size g ! a + 1) * sizeof_size_t)) = Some nb"
    and g': "g' = (grow g a x nb)\<lparr>adj_size := (adj_size (grow g a x nb))[a := size_dec (adj_size (grow g a x nb) ! a)]\<rparr>"
  shows "adj_list g' = adj_list g" "adj_size g' = adj_size g" "wf_graph g'" "same_shape g g'"
proof -
  let ?g2 = "grow g a x nb"
  note ge = grow_effect[OF wf a no re, of x]
  have ls: "length (adj_size g) = num_vertices g" using wf by (simp add: wf_graph_alt)
  show sz: "adj_size g' = adj_size g" using g' ge(4,5) a ls by simp
  have adj': "adj g' = adj ?g2" using g' by simp
  show "adj_list g' = adj_list g"
  proof
    fix w
    show "adj_list g' w = adj_list g w"
    proof (cases "w = a")
      case False
      have "adj_list g' w = take (adj_size g ! w) (adj ?g2 ! w)" using sz adj' by (simp add: adj_list_def)
      also have "\<dots> = adj_list g w" using False by (simp add: grow_def adj_list_def)
      finally show ?thesis .
    next
      case True
      have "adj_list g' a = take (adj_size g ! a) (adj ?g2 ! a)" using sz adj' by (simp add: adj_list_def)
      also have "\<dots> = take (adj_size g ! a) (take (adj_size ?g2 ! a) (adj ?g2 ! a))"
        using ge(4) a ls by simp
      also have "\<dots> = take (adj_size g ! a) (adj_list g a @ [x])"
        using ge(1) by (simp add: adj_list_def fun_eq_iff del: take_take)
      also have "\<dots> = adj_list g a" using wf a by (simp add: adj_list_def wf_graph_alt)
      finally show ?thesis using True by simp
    qed
  qed
  show "same_shape g g'" using ge(3) g' by (simp add: same_shape_def)
  show "wf_graph g'"
    unfolding wf_graph_alt
  proof (intro conjI allI impI)
    show "length (adj g') = num_vertices g'" using ge(2) g' by (simp add: wf_graph_alt)
    show "length (adj_size g') = num_vertices g'" using ge(2) g' by (simp add: wf_graph_alt)
  next
    fix v assume v: "v < num_vertices g'"
    then have v2: "v < num_vertices ?g2" using g' by simp
    have "adj_size g' ! v \<le> adj_size ?g2 ! v" using ge(4) sz a ls by (cases "v = a") simp_all
    also have "\<dots> \<le> length (adj ?g2 ! v)" using ge(2) v2 by (simp add: wf_graph_alt)
    finally show "adj_size g' ! v \<le> length (adj g' ! v)" using adj' by simp
    show "length (adj g' ! v) * sizeof_size_t \<le> SIZE_MAX" using ge(2) v2 adj' by (simp add: wf_graph_alt)
  qed
qed

lemma add_edge_effect:
  assumes wf: "wf_graph g" and s: "src < num_vertices g" and d: "dest < num_vertices g"
    and r: "add_edge ok_src ok_dest g src dest = (r, g')"
  shows "wf_graph g'" and "same_shape g g'"
    and "r \<noteq> 0 \<Longrightarrow> adj_list g' = adj_list g \<and> adj_size g' = adj_size g"
    and "r = 0 \<Longrightarrow> directed g \<Longrightarrow> adj_list g' = (adj_list g)(src := adj_list g src @ [dest])"
    and "r = 0 \<Longrightarrow> \<not> directed g \<Longrightarrow>
           adj_list g' = (\<lambda>w. adj_list g w @ (if w = src then [dest] else []) @ (if w = dest then [src] else []))"
proof -
  let ?ov1 = "checa_overflow (size_wrap (adj_size g ! src + 1)) sizeof_size_t"
  let ?re1 = "safe_realloc ok_src (adj g ! src) (size_wrap (size_wrap (adj_size g ! src + 1) * sizeof_size_t))"
  have refl_shape: "same_shape g g" by (simp add: same_shape_def)
  have all: "wf_graph g' \<and> same_shape g g' \<and>
    (r \<noteq> 0 \<longrightarrow> adj_list g' = adj_list g \<and> adj_size g' = adj_size g) \<and>
    (r = 0 \<longrightarrow> directed g \<longrightarrow> adj_list g' = (adj_list g)(src := adj_list g src @ [dest])) \<and>
    (r = 0 \<longrightarrow> \<not> directed g \<longrightarrow>
           adj_list g' = (\<lambda>w. adj_list g w @ (if w = src then [dest] else []) @ (if w = dest then [src] else [])))"
  proof (cases "?ov1 \<or> ?re1 = None")
    case True
    with r s d have "g' = g \<and> r \<noteq> 0" by (auto simp: add_edge_grow split: if_splits)
    with wf refl_shape show ?thesis by simp
  next
    case False
    then obtain nb where no1: "\<not> ?ov1" and re1: "?re1 = Some nb" by auto
    let ?g2 = "grow g src dest nb"
    note ge = grow_effect[OF wf s no1 re1, of dest]
    have d2: "dest < num_vertices ?g2" using ge(3) d by (simp add: same_shape_def)
    show ?thesis
    proof (cases "directed g")
      case True
      with r s d no1 re1 have "g' = ?g2 \<and> r = 0" by (simp add: add_edge_grow)
      with ge True show ?thesis by simp
    next
      case und: False
      let ?ov2 = "checa_overflow (size_wrap (adj_size ?g2 ! dest + 1)) sizeof_size_t"
      let ?re2 = "safe_realloc ok_dest (adj ?g2 ! dest) (size_wrap (size_wrap (adj_size ?g2 ! dest + 1) * sizeof_size_t))"
      show ?thesis
      proof (cases "?ov2 \<or> ?re2 = None")
        case True
        with r s d no1 re1 und
        have g': "g' = ?g2\<lparr>adj_size := (adj_size ?g2)[src := size_dec (adj_size ?g2 ! src)]\<rparr>" and r0: "r \<noteq> 0"
          by (auto simp: add_edge_grow Let_def split: if_splits)
        from rollback_effect[OF wf s no1 re1 g'] r0 show ?thesis by simp
      next
        case False
        then obtain nb2 where no2: "\<not> ?ov2" and re2: "?re2 = Some nb2" by auto
        with r s d no1 re1 und have g': "g' = grow ?g2 dest src nb2" and r0: "r = 0"
          by (simp_all add: add_edge_grow Let_def)
        note ge2 = grow_effect[OF ge(2) d2 no2 re2, of src]
        have "adj_list g' = (\<lambda>w. adj_list g w @ (if w = src then [dest] else []) @ (if w = dest then [src] else []))"
          using ge2(1) ge(1) g' by (auto simp: fun_eq_iff)
        moreover have "same_shape g g'" using ge(3) ge2(3) g' by (simp add: same_shape_def)
        ultimately show ?thesis using ge2(2) g' r0 und by simp
      qed
    qed
  qed
  from all show "wf_graph g'" and "same_shape g g'"
    and "r \<noteq> 0 \<Longrightarrow> adj_list g' = adj_list g \<and> adj_size g' = adj_size g"
    and "r = 0 \<Longrightarrow> directed g \<Longrightarrow> adj_list g' = (adj_list g)(src := adj_list g src @ [dest])"
    and "r = 0 \<Longrightarrow> \<not> directed g \<Longrightarrow>
           adj_list g' = (\<lambda>w. adj_list g w @ (if w = src then [dest] else []) @ (if w = dest then [src] else []))"
    by simp_all
qed

lemma add_edge_codes:
  "fst (add_edge ok_src ok_dest g src dest) \<in> {0, - 2, - 3, - 4}"
  by (simp add: add_edge_def Let_def split: option.splits)

lemma count_list_append: "count_list (xs @ ys) x = count_list xs x + count_list ys x"
  by (induction xs) auto

lemma symmetric_cong:
  "same_shape g g' \<Longrightarrow> adj_list g' = adj_list g \<Longrightarrow> symmetric g' = symmetric g"
  by (simp add: symmetric_alt same_shape_def)

lemma add_edge_symmetric:
  assumes wf: "wf_graph g" and s: "src < num_vertices g" and d: "dest < num_vertices g"
    and und: "\<not> directed g" and sym: "symmetric g"
    and r: "add_edge ok_src ok_dest g src dest = (r, g')"
  shows "symmetric g'"
proof (cases "r = 0")
  case False
  with add_edge_effect(2,3)[OF wf s d r] sym show ?thesis by (simp add: symmetric_cong)
next
  case True
  note e = add_edge_effect(2,5)[OF wf s d r]
  have n: "num_vertices g' = num_vertices g" using e(1) by (simp add: same_shape_def)
  have l: "adj_list g' = (\<lambda>w. adj_list g w @ (if w = src then [dest] else []) @ (if w = dest then [src] else []))"
    using e(2) True und by simp
  show ?thesis
    unfolding symmetric_alt
  proof (intro allI impI)
    fix u v assume "u < num_vertices g'" "v < num_vertices g'" "u \<noteq> v"
    then have "count_list (adj_list g u) v = count_list (adj_list g v) u"
      using sym n by (simp add: symmetric_alt)
    then show "count_list (adj_list g' u) v = count_list (adj_list g' v) u"
      using \<open>u \<noteq> v\<close> by (auto simp: l count_list_append)
  qed
qed

lemma remove_edge_success:
  assumes wf: "wf_graph g" and s: "src < num_vertices g" and d: "dest < num_vertices g"
    and r: "remove_edge ok_src ok_dest g src dest = (0, g')"
  shows "dest \<in> set (adj_list g src)"
    and "wf_graph g'" and "same_shape g g'"
    and "directed g \<Longrightarrow> adj_list g' = (adj_list g)(src := remove1 dest (adj_list g src))"
    and "\<not> directed g \<Longrightarrow> adj_list g' =
           ((adj_list g)(src := remove1 dest (adj_list g src)))
             (dest := remove1 src (((adj_list g)(src := remove1 dest (adj_list g src))) dest))"
proof -
  from r s d obtain g1 where r1: "remove_first ok_src g src dest = Removed g1"
    by (auto simp: remove_edge_def split: removal.splits if_splits)
  note e1 = remove_first_changed[OF wf s disjI1[OF r1]]
  let ?f = "(adj_list g)(src := remove1 dest (adj_list g src))"
  have f1: "adj_list g1 = ?f" using e1 by (auto simp: fun_eq_iff)
  have d1: "dest < num_vertices g1" and dir1: "directed g1 = directed g"
    using e1 d by (simp_all add: same_shape_def)
  have all: "wf_graph g' \<and> same_shape g g' \<and>
     (directed g \<longrightarrow> adj_list g' = ?f) \<and>
     (\<not> directed g \<longrightarrow> adj_list g' = ?f(dest := remove1 src (?f dest)))"
  proof (cases "directed g")
    case True
    with r s d r1 dir1 have "g' = g1" by (simp add: remove_edge_def)
    with e1 f1 True show ?thesis by simp
  next
    case und: False
    show ?thesis
    proof (cases "remove_first ok_dest g1 dest src")
      case NotFound
      with r s d r1 dir1 und have g': "g' = g1" by (simp add: remove_edge_def)
      from remove_first_NotFound[OF _ d1 NotFound] e1 have "src \<notin> set (adj_list g1 dest)" by simp
      then have "remove1 src (?f dest) = ?f dest" using f1 by (simp add: remove1_idem)
      then have "?f(dest := remove1 src (?f dest)) = ?f" by (simp add: fun_eq_iff)
      with e1 f1 g' und show ?thesis by simp
    next
      case (ReallocFailed g2)
      with r s d r1 dir1 und show ?thesis by (simp add: remove_edge_def)
    next
      case (Removed g2)
      with r s d r1 dir1 und have g': "g' = g2" by (simp add: remove_edge_def)
      have wf1: "wf_graph g1" using e1 by simp
      note e2 = remove_first_changed[OF wf1 d1 disjI1[OF Removed]]
      have "adj_list g2 = ?f(dest := remove1 src (?f dest))"
        using e2 f1 by (auto simp: fun_eq_iff)
      moreover have "same_shape g g2" using e1 e2 by (simp add: same_shape_def)
      ultimately show ?thesis using e2 g' und by simp
    qed
  qed
  show "dest \<in> set (adj_list g src)" using e1 by simp
  from all show "wf_graph g'" and "same_shape g g'"
    and "directed g \<Longrightarrow> adj_list g' = ?f"
    and "\<not> directed g \<Longrightarrow> adj_list g' = ?f(dest := remove1 src (?f dest))"
    by simp_all
qed

lemma adj_size_determined:
  assumes "wf_graph g" "wf_graph g'" "same_shape g g'" "adj_list g' = adj_list g"
  shows "adj_size g' = adj_size g"
proof (rule nth_equalityI)
  show "length (adj_size g') = length (adj_size g)"
    using assms by (simp add: wf_graph_alt same_shape_def)
next
  fix i assume "i < length (adj_size g')"
  then have i: "i < num_vertices g" "i < num_vertices g'"
    using assms by (simp_all add: wf_graph_alt same_shape_def)
  have "adj_size g' ! i = length (adj_list g' i)"
    using assms(2) i by (simp add: wf_graph_alt adj_list_def)
  also have "\<dots> = length (adj_list g i)" using assms(4) by simp
  also have "\<dots> = adj_size g ! i" using assms(1) i by (simp add: wf_graph_alt adj_list_def)
  finally show "adj_size g' ! i = adj_size g ! i" .
qed

lemma remove1_append_last: "x \<notin> set xs \<Longrightarrow> remove1 x (xs @ [x]) = xs"
  by (induction xs) auto

text \<open>
  Claim C5, as the code has it. On an undirected graph a successful \<open>add_edge(g, u, u)\<close>
  appends \<open>u\<close> to the list of \<open>u\<close> twice, once as the neighbour of the source and
  once as the neighbour of the destination: the list grows by exactly two entries.
\<close>

theorem add_edge_self_loop_twice:
  assumes "wf_graph g" and "\<not> directed g" and "u < num_vertices g"
    and "fst (add_edge ok_src ok_dest g u u) = 0"
  shows "adj_list (snd (add_edge ok_src ok_dest g u u)) u = adj_list g u @ [u, u] \<and>
         length (adj_list (snd (add_edge ok_src ok_dest g u u)) u) = length (adj_list g u) + 2"
proof -
  obtain r g' where r: "add_edge ok_src ok_dest g u u = (r, g')" by (cases "add_edge ok_src ok_dest g u u")
  with assms(4) have "r = 0" by simp
  from add_edge_effect(5)[OF assms(1) assms(3) assms(3) r this assms(2)] r
  show ?thesis by simp
qed

theorem add_edge_self_loop_twice_witness:
  "wf_graph g_one_vertex \<and> \<not> directed g_one_vertex \<and> 0 < num_vertices g_one_vertex \<and>
   fst (add_edge True True g_one_vertex 0 0) = 0 \<and>
   adj_list (snd (add_edge True True g_one_vertex 0 0)) 0 = [0, 0]"
proof -
  have h: "wf_graph g_one_vertex" "\<not> directed g_one_vertex" "0 < num_vertices g_one_vertex"
    "fst (add_edge True True g_one_vertex 0 0) = 0" "adj_list g_one_vertex 0 = []"
    by code_simp+
  from add_edge_self_loop_twice[OF h(1-4)] h show ?thesis by simp
qed

theorem add_edge_self_loop_once_counterexample:
  "wf_graph g_one_vertex \<and> \<not> directed g_one_vertex \<and> fst (add_edge True True g_one_vertex 0 0) = 0 \<and>
   length (adj_list (snd (add_edge True True g_one_vertex 0 0)) 0) \<noteq> length (adj_list g_one_vertex 0) + 1"
  by code_simp

text \<open>
  Claim C6, as the code has it. When \<open>v\<close> does not yet occur in the list of \<open>u\<close> (and,
  in an undirected graph, \<open>u\<close> does not yet occur in the list of \<open>v\<close>), a successful
  \<open>add_edge(g, u, v)\<close> immediately followed by a successful \<open>remove_edge(g, u, v)\<close>
  leaves every adjacency list with the contents and the order it had, and the sizes, the
  number of vertices and the direction flag unchanged.
\<close>

theorem add_then_remove_restores:
  assumes "wf_graph g" and "u < num_vertices g" and "v < num_vertices g"
    and "v \<notin> set (adj_list g u)"
    and "directed g \<or> u \<notin> set (adj_list g v)"
    and "fst (add_edge a_src a_dest g u v) = 0"
    and "fst (remove_edge r_src r_dest (snd (add_edge a_src a_dest g u v)) u v) = 0"
  shows "adj_list (snd (remove_edge r_src r_dest (snd (add_edge a_src a_dest g u v)) u v)) = adj_list g \<and>
         adj_size (snd (remove_edge r_src r_dest (snd (add_edge a_src a_dest g u v)) u v)) = adj_size g \<and>
         num_vertices (snd (remove_edge r_src r_dest (snd (add_edge a_src a_dest g u v)) u v)) = num_vertices g \<and>
         directed (snd (remove_edge r_src r_dest (snd (add_edge a_src a_dest g u v)) u v)) = directed g"
proof -
  obtain g1 where a: "add_edge a_src a_dest g u v = (0, g1)"
    using assms(6) by (cases "add_edge a_src a_dest g u v") simp
  obtain g2 where r: "remove_edge r_src r_dest g1 u v = (0, g2)"
    using assms(7) a by (cases "remove_edge r_src r_dest g1 u v") simp
  note ea = add_edge_effect[OF assms(1-3) a]
  have sh1: "num_vertices g1 = num_vertices g" "directed g1 = directed g"
    using ea(2) by (simp_all add: same_shape_def)
  have u1: "u < num_vertices g1" and v1: "v < num_vertices g1" using sh1 assms(2,3) by simp_all
  note er = remove_edge_success[OF ea(1) u1 v1 r]
  have lists: "adj_list g2 = adj_list g"
  proof (cases "directed g")
    case True
    then have "adj_list g1 = (adj_list g)(u := adj_list g u @ [v])" using ea(4) by simp
    moreover have "adj_list g2 = (adj_list g1)(u := remove1 v (adj_list g1 u))"
      using er(4) True sh1 by simp
    ultimately show ?thesis using assms(4) by (simp add: fun_eq_iff remove1_append_last)
  next
    case False
    then have l1: "adj_list g1 = (\<lambda>w. adj_list g w @ (if w = u then [v] else []) @ (if w = v then [u] else []))"
      using ea(5) by simp
    have nu: "u \<notin> set (adj_list g v)" using False assms(5) by simp
    have l2: "adj_list g2 = ((adj_list g1)(u := remove1 v (adj_list g1 u)))
             (v := remove1 u (((adj_list g1)(u := remove1 v (adj_list g1 u))) v))"
      using er(5) False sh1 by simp
    show ?thesis
    proof (cases "u = v")
      case True
      have "remove1 v (adj_list g v @ [v, v]) = adj_list g v @ [v]"
        using assms(4) True by (simp add: remove1_append)
      then show ?thesis using l1 l2 True assms(4) by (simp add: fun_eq_iff remove1_append_last)
    next
      case False
      then show ?thesis using l1 l2 assms(4) nu by (simp add: fun_eq_iff remove1_append_last)
    qed
  qed
  have sh2: "same_shape g g2" using ea(2) er(3) by (simp add: same_shape_def)
  have "adj_size g2 = adj_size g" using adj_size_determined[OF assms(1) er(2) sh2 lists] .
  with lists sh2 a r show ?thesis by (simp add: same_shape_def)
qed

theorem add_then_remove_restores_witness:
  "wf_graph g_two_edges \<and> 1 < num_vertices g_two_edges \<and> 2 < num_vertices g_two_edges \<and>
   2 \<notin> set (adj_list g_two_edges 1) \<and> 1 \<notin> set (adj_list g_two_edges 2) \<and>
   fst (add_edge True True g_two_edges 1 2) = 0 \<and>
   fst (remove_edge True True (snd (add_edge True True g_two_edges 1 2)) 1 2) = 0 \<and>
   adj_list (snd (remove_edge True True (snd (add_edge True True g_two_edges 1 2)) 1 2)) = adj_list g_two_edges"
proof -
  have h: "wf_graph g_two_edges" "1 < num_vertices g_two_edges" "2 < num_vertices g_two_edges"
    "2 \<notin> set (adj_list g_two_edges 1)" "1 \<notin> set (adj_list g_two_edges 2)"
    "fst (add_edge True True g_two_edges 1 2) = 0"
    "fst (remove_edge True True (snd (add_edge True True g_two_edges 1 2)) 1 2) = 0"
    by code_simp+
  from add_then_remove_restores[OF h(1-4) disjI2[OF h(5)] h(6,7)] h show ?thesis by simp
qed

theorem add_then_remove_duplicate_counterexample:
  "wf_graph g_two_edges \<and> 0 < num_vertices g_two_edges \<and> 1 < num_vertices g_two_edges \<and>
   fst (add_edge True True g_two_edges 0 1) = 0 \<and>
   fst (remove_edge True True (snd (add_edge True True g_two_edges 0 1)) 0 1) = 0 \<and>
   adj_list g_two_edges 0 = [1, 2] \<and>
   adj_list (snd (remove_edge True True (snd (add_edge True True g_two_edges 0 1)) 0 1)) 0 = [2, 1]"
  by code_simp

text \<open>
  Claim C7. On an undirected graph and in-range vertices \<open>u\<close>, \<open>v\<close>, \<open>add_edge\<close> either
  returns 0 and has appended \<open>v\<close> to the list of \<open>u\<close> and \<open>u\<close> to the list of \<open>v\<close>, or
  returns an error and leaves every adjacency list and every size as it was; when the
  second reallocation fails the call is an error, so the first insertion is rolled back;
  a symmetric state stays symmetric either way.
\<close>

theorem add_edge_undirected_atomic:
  assumes "wf_graph g" and "\<not> directed g" and "u < num_vertices g" and "v < num_vertices g"
  shows "let (r, g') = add_edge ok_src ok_dest g u v in
           ((r = 0 \<and> adj_list g' =
               (\<lambda>w. adj_list g w @ (if w = u then [v] else []) @ (if w = v then [u] else []))) \<or>
            (r \<noteq> 0 \<and> adj_list g' = adj_list g \<and> adj_size g' = adj_size g)) \<and>
           num_vertices g' = num_vertices g \<and> directed g' = directed g \<and> wf_graph g' \<and>
           (\<not> ok_dest \<longrightarrow> r \<noteq> 0) \<and>
           (symmetric g \<longrightarrow> symmetric g')"
proof -
  obtain r g' where r: "add_edge ok_src ok_dest g u v = (r, g')"
    by (cases "add_edge ok_src ok_dest g u v")
  note e = add_edge_effect[OF assms(1,3,4) r]
  have "\<not> ok_dest \<longrightarrow> r \<noteq> 0"
    using r assms(2) by (auto simp: add_edge_def safe_realloc_def Let_def split: option.splits if_splits)
  moreover have "symmetric g \<longrightarrow> symmetric g'"
    using add_edge_symmetric[OF assms(1,3,4,2) _ r] by simp
  moreover have "(r = 0 \<and> adj_list g' =
               (\<lambda>w. adj_list g w @ (if w = u then [v] else []) @ (if w = v then [u] else []))) \<or>
            (r \<noteq> 0 \<and> adj_list g' = adj_list g \<and> adj_size g' = adj_size g)"
    using e(3,5) assms(2) by (cases "r = 0") simp_all
  ultimately show ?thesis using e(1,2) r by (simp add: same_shape_def)
qed

theorem add_edge_undirected_atomic_witness:
  "wf_graph g_two_edges \<and> \<not> directed g_two_edges \<and> 1 < num_vertices g_two_edges \<and>
   2 < num_vertices g_two_edges \<and> symmetric g_two_edges \<and>
   fst (add_edge True False g_two_edges 1 2) = - 4 \<and>
   adj_list (snd (add_edge True False g_two_edges 1 2)) = adj_list g_two_edges \<and>
   adj_size (snd (add_edge True False g_two_edges 1 2)) = adj_size g_two_edges \<and>
   symmetric (snd (add_edge True False g_two_edges 1 2)) \<and>
   fst (add_edge True True g_two_edges 1 2) = 0 \<and>
   adj_list (snd (add_edge True True g_two_edges 1 2)) 1 = [0, 2] \<and>
   adj_list (snd (add_edge True True g_two_edges 1 2)) 2 = [0, 1]"
proof -
  have h: "wf_graph g_two_edges" "\<not> directed g_two_edges" "1 < num_vertices g_two_edges"
    "2 < num_vertices g_two_edges"
    by code_simp+
  have s: "symmetric g_two_edges" by code_simp
  have c: "fst (add_edge True False g_two_edges 1 2) = - 4"
    "fst (add_edge True True g_two_edges 1 2) = 0"
    "adj_list g_two_edges 1 = [0]" "adj_list g_two_edges 2 = [0]"
    by code_simp+
  from add_edge_undirected_atomic[OF h, of True False] c(1) s
  have 1: "adj_list (snd (add_edge True False g_two_edges 1 2)) = adj_list g_two_edges \<and>
   adj_size (snd (add_edge True False g_two_edges 1 2)) = adj_size g_two_edges \<and>
   symmetric (snd (add_edge True False g_two_edges 1 2))"
    by (simp add: split_def Let_def)
  from add_edge_undirected_atomic[OF h, of True True] c(2,3,4)
  have 2: "adj_list (snd (add_edge True True g_two_edges 1 2)) 1 = [0, 2] \<and>
   adj_list (snd (add_edge True True g_two_edges 1 2)) 2 = [0, 1]"
    by (simp add: split_def Let_def)
  from h s c 1 2 show ?thesis by simp
qed

text \<open>
  Claim C9 fails on \<open>remove_edge\<close>. On the symmetric undirected graph with the edges
  (0, 1) and (0, 2), \<open>remove_edge(g, 0, 1)\<close> whose shrinking reallocation of the list of 0
  fails returns -4 after it has taken 1 out of the list of 0 and before it looks at the
  list of 1: the state it leaves is not symmetric.
\<close>

theorem remove_edge_failed_shrink_asymmetric:
  "wf_graph g_two_edges \<and> \<not> directed g_two_edges \<and> symmetric g_two_edges \<and>
   fst (remove_edge False True g_two_edges 0 1) = - 4 \<and>
   adj_list (snd (remove_edge False True g_two_edges 0 1)) 0 = [2] \<and>
   adj_list (snd (remove_edge False True g_two_edges 0 1)) 1 = [0] \<and>
   \<not> symmetric (snd (remove_edge False True g_two_edges 0 1))"
  by code_simp

theorem remove_edge_failed_shrink_asymmetric_witness:
  "count_list (adj_list g_two_edges 0) 1 = count_list (adj_list g_two_edges 1) 0 \<and>
   count_list (adj_list (snd (remove_edge False True g_two_edges 0 1)) 0) 1 = 0 \<and>
   count_list (adj_list (snd (remove_edge False True g_two_edges 0 1)) 1) 0 = 1"
proof -
  have "count_list (adj_list g_two_edges 0) 1 = count_list (adj_list g_two_edges 1) 0" by code_simp
  with remove_edge_failed_shrink_asymmetric show ?thesis by simp
qed

lemma get_edges_vertex_empty:
  "adj_list g v = [] \<Longrightarrow> get_edges_vertex g capacity st v = st"
  by (simp add: get_edges_vertex_def)

lemma foldl_get_edges_vertex_empty:
  "\<forall>v \<in> set vs. adj_list g v = [] \<Longrightarrow> foldl (get_edges_vertex g capacity) st vs = st"
  by (induction vs arbitrary: st) (simp_all add: get_edges_vertex_empty)

text \<open>
  Claim C10. On a graph whose adjacency lists are all empty, \<open>get_edges\<close> returns NULL
  and leaves 0 in \<open>*num_edges\<close>, whatever the allocator does.
\<close>

theorem get_edges_edgeless_null:
  assumes "\<forall>v \<in> {0 ..< num_vertices g}. adj_list g v = []"
  shows "get_edges ok_edges ok_processed g = (None, 0)"
proof -
  have "\<forall>v \<in> set [0 ..< num_vertices g]. adj_list g v = []" using assms by simp
  then have "\<And>capacity st. foldl (get_edges_vertex g capacity) st [0 ..< num_vertices g] = st"
    by (rule foldl_get_edges_vertex_empty)
  then show ?thesis by (simp add: get_edges_def Let_def)
qed

theorem get_edges_edgeless_null_witness:
  "num_vertices g_edgeless = 3 \<and> adj_list g_edgeless 0 = [] \<and> adj_list g_edgeless 1 = [] \<and>
   adj_list g_edgeless 2 = [] \<and> get_edges True True g_edgeless = (None, 0)"
proof -
  have h: "\<forall>v \<in> {0 ..< num_vertices g_edgeless}. adj_list g_edgeless v = []" by code_simp
  have c: "num_vertices g_edgeless = 3" "adj_list g_edgeless 0 = []" "adj_list g_edgeless 1 = []"
    "adj_list g_edgeless 2 = []" by code_simp+
  from get_edges_edgeless_null[OF h, of True True] c show ?thesis by simp
qed

section \<open>Properties of the shortest-path routines\<close>

text \<open>
  Claim C1 fails on a vertex that carries a loop. On the graph with the single vertex 0
  and the edge (0, 0), whose only stored neighbour is valid, Dijkstra and Bellman-Ford
  return the distance 0 from 0 to 0, while Floyd-Warshall returns 1: its initialisation
  writes 0 on the diagonal and then overwrites it with 1 for the stored neighbour 0.
\<close>

theorem shortest_paths_disagree_on_loop:
  "num_vertices g_loop = 1 \<and> adj_list g_loop 0 = [0] \<and>
   dijkstra_shortest_path g_loop 0 0 = 0 \<and>
   bellman_ford_shortest_path g_loop 0 0 = 0 \<and>
   floyd_warshall_shortest_path g_loop 0 0 = 1"
  by code_simp

section \<open>Properties of the colouring routines\<close>

lemma int_of_size_small: "n \<le> GRAFO_MAX_VERTICES \<Longrightarrow> int_of_size n = int n"
  by (simp add: int_of_size_def GRAFO_MAX_VERTICES_def Let_def)

lemma first_free_props:
  "0 \<le> c \<Longrightarrow> c \<le> n \<Longrightarrow>
   c \<le> first_free used n c \<and> first_free used n c \<le> n \<and>
   (first_free used n c < n \<longrightarrow> \<not> used ! nat (first_free used n c)) \<and>
   (\<forall>k. c \<le> k \<and> k < first_free used n c \<longrightarrow> used ! nat k)"
proof (induction used n c rule: first_free.induct)
  case (1 used n c)
  show ?case
  proof (cases "c < n \<and> used ! nat c")
    case True
    then have eq: "first_free used n c = first_free used n (c + 1)"
      by (subst first_free.simps) simp
    from True "1.prems" have ih: "c + 1 \<le> first_free used n (c + 1) \<and> first_free used n (c + 1) \<le> n \<and>
      (first_free used n (c + 1) < n \<longrightarrow> \<not> used ! nat (first_free used n (c + 1))) \<and>
      (\<forall>k. c + 1 \<le> k \<and> k < first_free used n (c + 1) \<longrightarrow> used ! nat k)"
      using "1.IH" by simp
    have "\<And>k. c \<le> k \<Longrightarrow> k < first_free used n (c + 1) \<Longrightarrow> used ! nat k"
    proof -
      fix k assume "c \<le> k" "k < first_free used n (c + 1)"
      then show "used ! nat k" using ih True by (cases "k = c") auto
    qed
    with ih show ?thesis unfolding eq by auto
  next
    case False
    then have "first_free used n c = c" by (subst first_free.simps) auto
    with False "1.prems" show ?thesis by auto
  qed
qed

lemma first_free_bound:
  assumes "0 \<le> k" "k < n" "\<not> used ! nat k"
  shows "0 \<le> first_free used n 0 \<and> first_free used n 0 \<le> k \<and> \<not> used ! nat (first_free used n 0)"
proof -
  have n0: "(0::int) \<le> n" using assms by simp
  note p = first_free_props[of 0 n used, OF order_refl n0]
  have le: "first_free used n 0 \<le> k"
  proof (rule ccontr)
    assume "\<not> first_free used n 0 \<le> k"
    then have "k < first_free used n 0" by simp
    with p assms(1) have "used ! nat k" by blast
    with assms(3) show False by simp
  qed
  with p assms show ?thesis by auto
qed

lemma greedy_used_fold:
  "length used0 = n \<Longrightarrow> c < n \<Longrightarrow>
   fold (\<lambda>w used. if w < n \<and> color ! w \<ge> 0 then used[nat (color ! w) := True] else used) nbrs used0 ! c
     \<longleftrightarrow> used0 ! c \<or> (\<exists>w \<in> set nbrs. w < n \<and> color ! w \<ge> 0 \<and> nat (color ! w) = c)"
proof (induction nbrs arbitrary: used0)
  case Nil then show ?case by simp
next
  case (Cons w ws)
  let ?u1 = "if w < n \<and> color ! w \<ge> 0 then used0[nat (color ! w) := True] else used0"
  have len: "length ?u1 = n" using Cons.prems by simp
  have "?u1 ! c \<longleftrightarrow> used0 ! c \<or> (w < n \<and> color ! w \<ge> 0 \<and> nat (color ! w) = c)"
    using Cons.prems by (cases "nat (color ! w) = c") auto
  with Cons.IH[OF len Cons.prems(2)] show ?case by auto
qed

lemma greedy_used_iff:
  "c < n \<Longrightarrow> greedy_used n color nbrs ! c \<longleftrightarrow>
     (\<exists>w \<in> set nbrs. w < n \<and> color ! w \<ge> 0 \<and> nat (color ! w) = c)"
  unfolding greedy_used_def by (subst greedy_used_fold) simp_all

lemma greedy_step_inv:
  assumes sym: "symmetric g" and val: "valid_entries g"
    and n: "num_vertices g \<le> GRAFO_MAX_VERTICES" and v: "v < num_vertices g"
    and inv: "greedy_inv g v color"
  shows "greedy_inv g (Suc v) (fst (greedy_step g v (color, mc)))"
proof -
  let ?n = "num_vertices g"
  let ?used = "greedy_used ?n color (adj_list g v)"
  let ?c = "first_free ?used (int ?n) 0"
  have step: "fst (greedy_step g v (color, mc)) = color[v := ?c]"
    using n by (simp add: greedy_step_def Let_def int_of_size_small)
  have len: "length color = ?n" and low: "\<forall>w < v. 0 \<le> color ! w \<and> color ! w \<le> int w"
    and high: "\<forall>w. v \<le> w \<and> w < ?n \<longrightarrow> color ! w = - 1"
    and prp: "\<forall>a < v. \<forall>b < v. b \<in> set (adj_list g a) \<longrightarrow> a \<noteq> b \<longrightarrow> color ! a \<noteq> color ! b"
    using inv by (auto simp: greedy_inv_def)
  have not_used_v: "\<not> ?used ! v"
  proof
    assume "?used ! v"
    then obtain w where w: "w \<in> set (adj_list g v)" "w < ?n" "color ! w \<ge> 0" "nat (color ! w) = v"
      using v by (auto simp: greedy_used_iff)
    have "w < v" using w(2,3) high by (cases "w < v") auto
    then have "color ! w \<le> int w" using low by simp
    with w(3,4) \<open>w < v\<close> show False by linarith
  qed
  have "(0::int) \<le> int v" "int v < int ?n" "\<not> ?used ! nat (int v)" using v not_used_v by simp_all
  from first_free_bound[OF this]
  have c: "0 \<le> ?c" "?c \<le> int v" "\<not> ?used ! nat ?c" by auto
  have cn: "nat ?c < ?n" using c v by linarith
  have diff: "\<And>w. w \<in> set (adj_list g v) \<Longrightarrow> w < v \<Longrightarrow> color ! w \<noteq> ?c"
  proof
    fix w assume w: "w \<in> set (adj_list g v)" "w < v" "color ! w = ?c"
    then have "w < ?n" "color ! w \<ge> 0" using v c by simp_all
    with w have "?used ! nat ?c" using cn by (auto simp: greedy_used_iff)
    with c show False by simp
  qed
  show ?thesis
    unfolding step greedy_inv_def
  proof (intro conjI allI impI)
    show "length (color[v := ?c]) = ?n" using len by simp
  next
    fix w assume "w < Suc v"
    then show "0 \<le> color[v := ?c] ! w" "color[v := ?c] ! w \<le> int w"
      using low c len v by (cases "w = v"; simp)+
  next
    fix w assume "Suc v \<le> w \<and> w < ?n"
    then show "color[v := ?c] ! w = - 1" using high by simp
  next
    fix a b assume ab: "a < Suc v" "b < Suc v" "b \<in> set (adj_list g a)" "a \<noteq> b"
    show "color[v := ?c] ! a \<noteq> color[v := ?c] ! b"
    proof (cases "a = v")
      case True
      with ab have "b < v" by simp
      with diff[of b] ab True len v show ?thesis by simp
    next
      case False
      then have av: "a < v" using ab by simp
      show ?thesis
      proof (cases "b = v")
        case True
        have "a \<in> set (adj_list g v)"
          using symmetric_mem[OF sym val _ ab(3,4)] av v True by simp
        with diff[of a] av True len v show ?thesis by simp
      next
        case False
        then have "b < v" using ab by simp
        with prp av ab \<open>a \<noteq> v\<close> False show ?thesis by simp
      qed
    qed
  qed
qed

lemma greedy_fold_inv:
  assumes sym: "symmetric g" and val: "valid_entries g"
    and n: "num_vertices g \<le> GRAFO_MAX_VERTICES"
  shows "k \<le> num_vertices g \<Longrightarrow>
         greedy_inv g k (fst (fold (greedy_step g) [0 ..< k] (replicate (num_vertices g) (- 1), - 1)))"
proof (induction k)
  case 0
  show ?case by (simp add: greedy_inv_def)
next
  case (Suc k)
  let ?st = "fold (greedy_step g) [0 ..< k] (replicate (num_vertices g) (- 1), - 1)"
  have ih: "greedy_inv g k (fst ?st)" using Suc by simp
  have "fold (greedy_step g) [0 ..< Suc k] (replicate (num_vertices g) (- 1), - 1) = greedy_step g k ?st"
    by simp
  moreover have "greedy_inv g (Suc k) (fst (greedy_step g k (fst ?st, snd ?st)))"
    using greedy_step_inv[OF sym val n _ ih, of "snd ?st"] Suc.prems by simp
  ultimately show ?case by simp
qed

lemma greedy_proper:
  assumes "store_graph g" "valid_entries g" "symmetric g"
  shows "\<exists>color k. greedy_sequential_coloring True g = Some (color, k) \<and>
           length color = num_vertices g \<and> proper_coloring g color"
proof -
  let ?n = "num_vertices g"
  have n: "0 < ?n" "?n \<le> GRAFO_MAX_VERTICES" using assms(1) by (simp_all add: store_graph_def)
  let ?st = "fold (greedy_step g) [0 ..< ?n] (replicate ?n (- 1), - 1)"
  have "\<not> ?n > SIZE_MAX div sizeof_int"
    using n by (simp add: GRAFO_MAX_VERTICES_def SIZE_MAX_def sizeof_int_def)
  then have res: "greedy_sequential_coloring True g = Some (fst ?st, size_of_int (snd ?st + 1))"
    using n by (simp add: greedy_sequential_coloring_def Let_def)
  have inv: "greedy_inv g ?n (fst ?st)"
    using greedy_fold_inv[OF assms(3,2) n(2), of ?n] by simp
  have "proper_coloring g (fst ?st)"
    unfolding proper_coloring_def
  proof (intro ballI impI)
    fix u v assume u: "u \<in> {0 ..< ?n}" and v: "v \<in> set (adj_list g u)" and ne: "u \<noteq> v"
    have "v < ?n" using assms(2) u v by (auto simp: valid_entries_alt)
    with inv u v ne show "fst ?st ! u \<noteq> fst ?st ! v" by (simp add: greedy_inv_def)
  qed
  with res inv show ?thesis by (auto simp: greedy_inv_def)
qed

lemma ds_inv_cong:
  "ds_inv g k s \<Longrightarrow> ds_color s' = ds_color s \<Longrightarrow> length (ds_sat_deg s') = num_vertices g \<Longrightarrow>
   (\<forall>v < num_vertices g. 0 \<le> ds_sat_deg s' ! v) \<Longrightarrow> ds_inv g k s'"
  by (simp add: ds_inv_def)

lemma inc_nonneg:
  assumes "\<forall>v < length xs. 0 \<le> xs ! v" "v < length xs"
  shows "(0::int) \<le> xs[u := xs ! u + 1] ! v"
proof (cases "u = v")
  case True
  have "0 \<le> xs ! v" using assms by simp
  with True assms(2) show ?thesis by simp
next
  case False
  with assms show ?thesis by simp
qed

lemma dsatur_mark_keeps:
  "ds_color (dsatur_mark c u s) = ds_color s \<and>
   length (ds_sat_deg (dsatur_mark c u s)) = length (ds_sat_deg s) \<and>
   ((\<forall>v < length (ds_sat_deg s). 0 \<le> ds_sat_deg s ! v) \<longrightarrow>
    (\<forall>v < length (ds_sat_deg s). 0 \<le> ds_sat_deg (dsatur_mark c u s) ! v))"
proof (cases "ds_color s ! u = - 1 \<and> \<not> ds_neighbor_colors s ! u ! nat c")
  case True
  then have "ds_color (dsatur_mark c u s) = ds_color s"
    and "ds_sat_deg (dsatur_mark c u s) = (ds_sat_deg s)[u := ds_sat_deg s ! u + 1]"
    by (simp_all add: dsatur_mark_def)
  then show ?thesis using inc_nonneg[of "ds_sat_deg s" _ u] by simp
next
  case False
  then have "dsatur_mark c u s = s" by (auto simp: dsatur_mark_def)
  then show ?thesis by simp
qed

lemma dsatur_mark_first_keeps:
  "ds_color (dsatur_mark_first u s) = ds_color s \<and>
   length (ds_sat_deg (dsatur_mark_first u s)) = length (ds_sat_deg s) \<and>
   ((\<forall>v < length (ds_sat_deg s). 0 \<le> ds_sat_deg s ! v) \<longrightarrow>
    (\<forall>v < length (ds_sat_deg s). 0 \<le> ds_sat_deg (dsatur_mark_first u s) ! v))"
proof (cases "\<not> ds_neighbor_colors s ! u ! 0")
  case True
  then have "ds_color (dsatur_mark_first u s) = ds_color s"
    and "ds_sat_deg (dsatur_mark_first u s) = (ds_sat_deg s)[u := ds_sat_deg s ! u + 1]"
    by (simp_all add: dsatur_mark_first_def)
  then show ?thesis using inc_nonneg[of "ds_sat_deg s" _ u] by simp
next
  case False
  then have "dsatur_mark_first u s = s" by (auto simp: dsatur_mark_first_def)
  then show ?thesis by simp
qed

lemma fold_keeps:
  assumes "\<And>u s. ds_color (f u s) = ds_color s \<and>
   length (ds_sat_deg (f u s)) = length (ds_sat_deg s) \<and>
   ((\<forall>v < length (ds_sat_deg s). 0 \<le> ds_sat_deg s ! v) \<longrightarrow>
    (\<forall>v < length (ds_sat_deg s). 0 \<le> ds_sat_deg (f u s) ! v))"
  shows "ds_color (fold f us s) = ds_color s \<and>
   length (ds_sat_deg (fold f us s)) = length (ds_sat_deg s) \<and>
   ((\<forall>v < length (ds_sat_deg s). 0 \<le> ds_sat_deg s ! v) \<longrightarrow>
    (\<forall>v < length (ds_sat_deg s). 0 \<le> ds_sat_deg (fold f us s) ! v))"
proof (induction us arbitrary: s)
  case Nil show ?case by simp
next
  case (Cons u us)
  from assms[of u s] Cons[of "f u s"] show ?case by simp
qed

lemma fold_mark_inv:
  assumes "ds_inv g k s"
  shows "ds_inv g k (fold (dsatur_mark c) us s)" and "ds_inv g k (fold dsatur_mark_first us s)"
proof -
  have l: "length (ds_sat_deg s) = num_vertices g" "\<forall>v < length (ds_sat_deg s). 0 \<le> ds_sat_deg s ! v"
    using assms by (simp_all add: ds_inv_def)
  from fold_keeps[of "dsatur_mark c", OF dsatur_mark_keeps, of us s] l
  show "ds_inv g k (fold (dsatur_mark c) us s)" by (intro ds_inv_cong[OF assms]) simp_all
  from fold_keeps[of dsatur_mark_first, OF dsatur_mark_first_keeps, of us s] l
  show "ds_inv g k (fold dsatur_mark_first us s)" by (intro ds_inv_cong[OF assms]) simp_all
qed

lemma cand_step_ok:
  assumes "cand_ok color sat j st" "0 \<le> sat ! j"
  shows "cand_ok color sat (Suc j) (cand_step color sat deg j st)"
proof (cases "color ! j \<noteq> - 1")
  obtain m cd where st: "st = (m, cd)" by (cases st)
  case True
  then have "cand_step color sat deg j st = st" by (simp add: cand_step_def st)
  with assms(1) True show ?thesis by (auto simp: cand_ok_def less_Suc_eq)
next
  case unc: False
  obtain m cd where st: "st = (m, cd)" by (cases st)
  show ?thesis
  proof (cases "snd st = SIZE_MAX \<and> fst st = - 1 \<and> (\<forall>v < j. color ! v \<noteq> - 1)")
    case True
    then have "fst st < sat ! j" using assms(2) by simp
    then have "cand_step color sat deg j st = (sat ! j, j)"
      using unc by (simp add: cand_step_def st)
    with unc show ?thesis by (simp add: cand_ok_def)
  next
    case False
    with assms(1) have old: "snd st < j" "color ! snd st = - 1" "fst st = sat ! snd st"
      by (auto simp: cand_ok_def)
    have "cand_step color sat deg j st = (sat ! j, j) \<or> cand_step color sat deg j st = st"
      using unc by (auto simp: cand_step_def st)
    then show ?thesis
    proof
      assume "cand_step color sat deg j st = (sat ! j, j)"
      with unc show ?thesis by (simp add: cand_ok_def)
    next
      assume "cand_step color sat deg j st = st"
      with old show ?thesis by (simp add: cand_ok_def)
    qed
  qed
qed

lemma dsatur_candidate_fold:
  assumes "\<forall>v < n. 0 \<le> sat ! v"
  shows "j \<le> n \<Longrightarrow> cand_ok color sat j (fold (cand_step color sat deg) [0 ..< j] (- 1, SIZE_MAX))"
proof (induction j)
  case 0 show ?case by (simp add: cand_ok_def)
next
  case (Suc j)
  then have j: "j < n" "j \<le> n" by simp_all
  with assms have sj: "0 \<le> sat ! j" by simp
  from cand_step_ok[OF Suc.IH[OF j(2)] sj] show ?case by simp
qed

lemma dsatur_candidate_ok:
  assumes "ds_inv g k s" "k < num_vertices g" "num_vertices g \<le> GRAFO_MAX_VERTICES"
  shows "snd (dsatur_candidate g s) < num_vertices g \<and>
         ds_color s ! snd (dsatur_candidate g s) = - 1 \<and> snd (dsatur_candidate g s) \<noteq> SIZE_MAX"
proof -
  let ?n = "num_vertices g"
  have sat: "\<forall>v < ?n. 0 \<le> ds_sat_deg s ! v" using assms(1) by (simp add: ds_inv_def)
  have "\<exists>v < ?n. ds_color s ! v = - 1"
  proof (rule ccontr)
    assume "\<not> (\<exists>v < ?n. ds_color s ! v = - 1)"
    then have "colored g (ds_color s) = {..< ?n}" by (auto simp: colored_def)
    then have "card (colored g (ds_color s)) = ?n" by simp
    with assms(1,2) show False by (simp add: ds_inv_def)
  qed
  moreover have "dsatur_candidate g s =
      fold (cand_step (ds_color s) (ds_sat_deg s) (adj_size g)) [0 ..< ?n] (- 1, SIZE_MAX)"
    by (simp add: dsatur_candidate_def cand_step_def)
  ultimately have "snd (dsatur_candidate g s) < ?n \<and> ds_color s ! snd (dsatur_candidate g s) = - 1"
    using dsatur_candidate_fold[OF sat, of ?n "ds_color s" "adj_size g"]
    by (auto simp: cand_ok_def)
  moreover have "?n < SIZE_MAX" using assms(3) by (simp add: GRAFO_MAX_VERTICES_def SIZE_MAX_def)
  ultimately show ?thesis by auto
qed

lemma dsatur_used_fold:
  "length used0 = n \<Longrightarrow> c < n \<Longrightarrow>
   fold (\<lambda>u used. if color ! u \<noteq> - 1 then used[nat (color ! u) := True] else used) nbrs used0 ! c
     \<longleftrightarrow> used0 ! c \<or> (\<exists>u \<in> set nbrs. color ! u \<noteq> - 1 \<and> nat (color ! u) = c)"
proof (induction nbrs arbitrary: used0)
  case Nil then show ?case by simp
next
  case (Cons w ws)
  let ?u1 = "if color ! w \<noteq> - 1 then used0[nat (color ! w) := True] else used0"
  have len: "length ?u1 = n" using Cons.prems by simp
  have "?u1 ! c \<longleftrightarrow> used0 ! c \<or> (color ! w \<noteq> - 1 \<and> nat (color ! w) = c)"
    using Cons.prems by (cases "nat (color ! w) = c") auto
  with Cons.IH[OF len Cons.prems(2)] show ?case by auto
qed

lemma dsatur_used_iff:
  "c < n \<Longrightarrow> dsatur_used n color nbrs ! c \<longleftrightarrow>
     (\<exists>u \<in> set nbrs. color ! u \<noteq> - 1 \<and> nat (color ! u) = c)"
  unfolding dsatur_used_def by (subst dsatur_used_fold) simp_all

lemma colored_finite: "finite (colored g color)"
  by (simp add: colored_def)

lemma colored_update:
  assumes "x < num_vertices g" "length color = num_vertices g" "c \<noteq> - 1"
  shows "colored g (color[x := c]) = insert x (colored g color)"
  using assms by (auto simp: colored_def nth_list_update)

lemma dsatur_step_inv:
  assumes sym: "symmetric g" and val: "valid_entries g"
    and n: "num_vertices g \<le> GRAFO_MAX_VERTICES"
    and inv: "ds_inv g k s" and k: "k < num_vertices g"
    and x: "x < num_vertices g" "ds_color s ! x = - 1"
    and c: "c = first_free (dsatur_used (num_vertices g) (ds_color s) (adj_list g x)) (int (num_vertices g)) 0"
  shows "ds_inv g (Suc k) (s\<lparr>ds_color := (ds_color s)[x := c], ds_max_color := mc\<rparr>)"
proof -
  let ?n = "num_vertices g" and ?col = "ds_color s"
  let ?used = "dsatur_used ?n ?col (adj_list g x)"
  have len: "length ?col = ?n" and card: "card (colored g ?col) = k"
    and rng: "\<forall>v \<in> colored g ?col. 0 \<le> ?col ! v \<and> ?col ! v < int k"
    and prp: "\<forall>a \<in> colored g ?col. \<forall>b \<in> colored g ?col.
        b \<in> set (adj_list g a) \<longrightarrow> a \<noteq> b \<longrightarrow> ?col ! a \<noteq> ?col ! b"
    using inv by (auto simp: ds_inv_def)
  have nbr_col: "\<And>u. u \<in> set (adj_list g x) \<Longrightarrow> ?col ! u \<noteq> - 1 \<Longrightarrow> u \<in> colored g ?col"
    using val x(1) by (auto simp: valid_entries_alt colored_def)
  have not_used_k: "\<not> ?used ! k"
  proof
    assume "?used ! k"
    then obtain u where u: "u \<in> set (adj_list g x)" "?col ! u \<noteq> - 1" "nat (?col ! u) = k"
      using k by (auto simp: dsatur_used_iff)
    from nbr_col[OF u(1,2)] rng have "0 \<le> ?col ! u" "?col ! u < int k" by auto
    with u(3) show False by linarith
  qed
  have "(0::int) \<le> int k" "int k < int ?n" "\<not> ?used ! nat (int k)" using k not_used_k by simp_all
  from first_free_bound[OF this] c
  have cb: "0 \<le> c" "c \<le> int k" "\<not> ?used ! nat c" by auto
  have cn: "nat c < ?n" using cb k by linarith
  have diff: "\<And>u. u \<in> set (adj_list g x) \<Longrightarrow> u \<in> colored g ?col \<Longrightarrow> ?col ! u \<noteq> c"
  proof
    fix u assume u: "u \<in> set (adj_list g x)" "u \<in> colored g ?col" "?col ! u = c"
    then have "?col ! u \<noteq> - 1" by (simp add: colored_def)
    with u have "?used ! nat c" using cn by (auto simp: dsatur_used_iff)
    with cb show False by simp
  qed
  have xnot: "x \<notin> colored g ?col" using x by (simp add: colored_def)
  have cne: "c \<noteq> - 1" using cb by simp
  have col': "colored g (?col[x := c]) = insert x (colored g ?col)"
    using colored_update[OF x(1) len cne] .
  have sat: "length (ds_sat_deg s) = ?n" "\<forall>v < ?n. 0 \<le> ds_sat_deg s ! v"
    using inv by (simp_all add: ds_inv_def)
  show ?thesis
    unfolding ds_inv_def
  proof (intro conjI ballI impI)
    show "length (ds_color (s\<lparr>ds_color := ?col[x := c], ds_max_color := mc\<rparr>)) = ?n" using len by simp
    show "length (ds_sat_deg (s\<lparr>ds_color := ?col[x := c], ds_max_color := mc\<rparr>)) = ?n" using sat by simp
    show "\<forall>v < ?n. 0 \<le> ds_sat_deg (s\<lparr>ds_color := ?col[x := c], ds_max_color := mc\<rparr>) ! v"
      using sat by simp
    show "card (colored g (ds_color (s\<lparr>ds_color := ?col[x := c], ds_max_color := mc\<rparr>))) = Suc k"
      using col' xnot card colored_finite[of g ?col] by simp
  next
    fix v assume "v \<in> colored g (ds_color (s\<lparr>ds_color := ?col[x := c], ds_max_color := mc\<rparr>))"
    then have v: "v = x \<or> v \<in> colored g ?col" using col' by simp
    show "0 \<le> ds_color (s\<lparr>ds_color := ?col[x := c], ds_max_color := mc\<rparr>) ! v"
      using v cb rng len x(1) by (cases "v = x") auto
    show "ds_color (s\<lparr>ds_color := ?col[x := c], ds_max_color := mc\<rparr>) ! v < int (Suc k)"
      using v cb rng len x(1) by (cases "v = x") auto
  next
    fix a b
    assume a: "a \<in> colored g (ds_color (s\<lparr>ds_color := ?col[x := c], ds_max_color := mc\<rparr>))"
      and b: "b \<in> colored g (ds_color (s\<lparr>ds_color := ?col[x := c], ds_max_color := mc\<rparr>))"
      and e: "b \<in> set (adj_list g a)" and ne: "a \<noteq> b"
    have a': "a = x \<or> a \<in> colored g ?col" and b': "b = x \<or> b \<in> colored g ?col"
      using a b col' by simp_all
    have an: "a < ?n" using a' x(1) by (auto simp: colored_def)
    show "ds_color (s\<lparr>ds_color := ?col[x := c], ds_max_color := mc\<rparr>) ! a \<noteq>
          ds_color (s\<lparr>ds_color := ?col[x := c], ds_max_color := mc\<rparr>) ! b"
    proof (cases "a = x")
      case True
      with ne b' have "b \<in> colored g ?col" by auto
      with diff[of b] e True ne len x(1) show ?thesis by simp
    next
      case ax: False
      with a' have ac: "a \<in> colored g ?col" by simp
      show ?thesis
      proof (cases "b = x")
        case True
        have "a \<in> set (adj_list g x)" using symmetric_mem[OF sym val an e ne] True by simp
        with diff[of a] ac True ax len x(1) show ?thesis by simp
      next
        case False
        with b' have "b \<in> colored g ?col" by simp
        with prp ac e ne ax False show ?thesis by simp
      qed
    qed
  qed
qed

lemma dsatur_loop_inv:
  assumes sym: "symmetric g" and val: "valid_entries g"
    and n: "num_vertices g \<le> GRAFO_MAX_VERTICES"
  shows "num_vertices g - k = d \<Longrightarrow> k \<le> num_vertices g \<Longrightarrow> ds_inv g k s \<Longrightarrow>
         (\<exists>s'. dsatur_loop ok g k s = Some s' \<and> ds_inv g (num_vertices g) s') \<or>
         (dsatur_loop ok g k s = None \<and> \<not> list_all ok [k ..< num_vertices g])"
proof (induction d arbitrary: k s)
  case 0
  then have "k = num_vertices g" by simp
  with 0 show ?case by (subst dsatur_loop.simps) simp
next
  case (Suc d)
  then have k: "k < num_vertices g" by simp
  let ?n = "num_vertices g"
  let ?x = "snd (dsatur_candidate g s)"
  note cand = dsatur_candidate_ok[OF Suc.prems(3) k n]
  have up: "[k ..< ?n] = k # [Suc k ..< ?n]" using k by (simp add: upt_conv_Cons)
  show ?case
  proof (cases "ok k")
    case False
    have "dsatur_loop ok g k s = None"
      using k cand False by (subst dsatur_loop.simps) (simp add: Let_def)
    with False up show ?thesis by simp
  next
    case True
    let ?c = "first_free (dsatur_used ?n (ds_color s) (adj_list g ?x)) (int ?n) 0"
    let ?mc = "if ?c > ds_max_color s then ?c else ds_max_color s"
    let ?s1 = "s\<lparr>ds_color := (ds_color s)[?x := ?c], ds_max_color := ?mc\<rparr>"
    let ?s2 = "fold (dsatur_mark ?c) (adj_list g ?x) ?s1"
    have "ds_inv g (Suc k) ?s1"
      using dsatur_step_inv[OF sym val n Suc.prems(3) k _ _ refl, of ?x] cand by simp
    then have i2: "ds_inv g (Suc k) ?s2" by (rule fold_mark_inv)
    have eq: "dsatur_loop ok g k s = dsatur_loop ok g (k + 1) ?s2"
      using k cand n True by (subst dsatur_loop.simps) (simp add: Let_def int_of_size_small)
    have "(\<exists>s'. dsatur_loop ok g (Suc k) ?s2 = Some s' \<and> ds_inv g ?n s') \<or>
          (dsatur_loop ok g (Suc k) ?s2 = None \<and> \<not> list_all ok [Suc k ..< ?n])"
      using Suc.IH[of "Suc k" ?s2] Suc.prems k i2 by simp
    with eq up True show ?thesis by simp
  qed
qed

lemma dsatur_first_bound:
  "0 < n \<Longrightarrow> b \<le> n \<Longrightarrow> fold (\<lambda>v first. if sz ! v > sz ! first then v else first) [1 ..< b] 0 < n"
proof (induction b)
  case 0 then show ?case by simp
next
  case (Suc b)
  then show ?case by (cases "b = 0") auto
qed

lemma dsatur_proper:
  assumes "store_graph g" "valid_entries g" "symmetric g"
  shows "(\<exists>color k. dsatur_coloring a rows used g = (0, Some color, k) \<and>
            length color = num_vertices g \<and> proper_coloring g color) \<or>
         (dsatur_coloring a rows used g = (- 1, None, 0) \<and>
          \<not> (a \<and> list_all rows [0 ..< num_vertices g] \<and> list_all used [1 ..< num_vertices g]))"
proof (cases "a \<and> list_all rows [0 ..< num_vertices g]")
  case False
  have "0 < num_vertices g" using assms(1) by (simp add: store_graph_def)
  with False show ?thesis by (auto simp: dsatur_coloring_def Let_def)
next
  case alloc: True
  let ?n = "num_vertices g"
  have n: "0 < ?n" "?n \<le> GRAFO_MAX_VERTICES" using assms(1) by (simp_all add: store_graph_def)
  let ?first = "dsatur_first g"
  have first: "?first < ?n" unfolding dsatur_first_def using dsatur_first_bound[OF n(1) order_refl] .
  let ?s0 = "\<lparr>ds_color = (replicate ?n (- 1))[?first := 0], ds_sat_deg = replicate ?n 0,
               ds_neighbor_colors = replicate ?n (replicate ?n False), ds_max_color = 0\<rparr>"
  let ?s1 = "fold dsatur_mark_first (adj_list g ?first) ?s0"
  have c0: "colored g ((replicate ?n (- 1))[?first := 0]) = {?first}"
    using first by (auto simp: colored_def nth_list_update)
  have "ds_inv g 1 ?s0" unfolding ds_inv_def using first c0 by simp
  then have i1: "ds_inv g 1 ?s1" by (rule fold_mark_inv)
  have res: "dsatur_coloring a rows used g =
               (case dsatur_loop used g 1 ?s1 of
                  None \<Rightarrow> (- 1, None, 0)
                | Some s2 \<Rightarrow> (0, Some (ds_color s2), ds_max_color s2 + 1))"
    using n alloc by (simp add: dsatur_coloring_def Let_def)
  from dsatur_loop_inv[OF assms(3,2) n(2) refl, of 1 ?s1 used] n(1) i1
  have "(\<exists>s'. dsatur_loop used g 1 ?s1 = Some s' \<and> ds_inv g ?n s') \<or>
        (dsatur_loop used g 1 ?s1 = None \<and> \<not> list_all used [1 ..< ?n])" by simp
  then show ?thesis
  proof
    assume "dsatur_loop used g 1 ?s1 = None \<and> \<not> list_all used [1 ..< ?n]"
    with res show ?thesis by simp
  next
    assume "\<exists>s'. dsatur_loop used g 1 ?s1 = Some s' \<and> ds_inv g ?n s'"
    then obtain s2 where s2: "dsatur_loop used g 1 ?s1 = Some s2" and inv: "ds_inv g ?n s2" by blast
    have all: "colored g (ds_color s2) = {..< ?n}"
    proof -
      have "colored g (ds_color s2) \<subseteq> {..< ?n}" by (auto simp: colored_def)
      moreover have "card (colored g (ds_color s2)) = card {..< ?n}" using inv by (simp add: ds_inv_def)
      ultimately show ?thesis by (simp add: card_subset_eq)
    qed
    have "proper_coloring g (ds_color s2)"
      unfolding proper_coloring_def
    proof (intro ballI impI)
      fix u v assume u: "u \<in> {0 ..< ?n}" and v: "v \<in> set (adj_list g u)" and ne: "u \<noteq> v"
      have "v < ?n" using assms(2) u v by (auto simp: valid_entries_alt)
      then have "u \<in> colored g (ds_color s2)" "v \<in> colored g (ds_color s2)" using u all by simp_all
      with inv v ne show "ds_color s2 ! u \<noteq> ds_color s2 ! v" unfolding ds_inv_def by blast
    qed
    moreover have "length (ds_color s2) = ?n" using inv by (simp add: ds_inv_def)
    ultimately show ?thesis using res s2 by simp
  qed
qed

lemma greedy_failed_allocation: "greedy_sequential_coloring False g = None"
  by (simp add: greedy_sequential_coloring_def Let_def)

text \<open>
  Claim C8, as the code has it. Take a graph of the store with valid entries whose
  adjacency is symmetric (what \<open>add_edge\<close> builds on an undirected graph), and any outcome
  of the allocations. Every colour array that \<open>greedy_sequential_coloring\<close> or
  \<open>dsatur_coloring\<close> returns has a colour for every vertex, and no two distinct vertices
  joined by a stored edge have the same colour; \<open>dsatur_coloring\<close> returns an array only
  with the status 0. Each routine does return an array when its allocations succeed, and
  its error value (NULL, or -1 with no array) otherwise. Both routines look only at the
  neighbours stored in the list of the vertex they colour.
\<close>

theorem colorings_proper_on_symmetric:
  assumes "store_graph g" and "valid_entries g" and "symmetric g"
  shows "(\<forall>color k. greedy_sequential_coloring allocated g = Some (color, k) \<longrightarrow>
            length color = num_vertices g \<and> proper_coloring g color) \<and>
         (greedy_sequential_coloring allocated g \<noteq> None \<longleftrightarrow> allocated) \<and>
         (\<forall>status color k.
            dsatur_coloring arrays rows used g = (status, Some color, k) \<longrightarrow>
            status = 0 \<and> length color = num_vertices g \<and> proper_coloring g color) \<and>
         ((\<exists>color k. dsatur_coloring arrays rows used g = (0, Some color, k)) \<longleftrightarrow>
            dsatur_coloring arrays rows used g \<noteq> (- 1, None, 0)) \<and>
         (arrays \<and> list_all rows [0 ..< num_vertices g] \<and> list_all used [1 ..< num_vertices g] \<longrightarrow>
            (\<exists>color k. dsatur_coloring arrays rows used g = (0, Some color, k)))"
proof -
  have g: "(\<forall>color k. greedy_sequential_coloring allocated g = Some (color, k) \<longrightarrow>
              length color = num_vertices g \<and> proper_coloring g color) \<and>
           (greedy_sequential_coloring allocated g \<noteq> None \<longleftrightarrow> allocated)"
  proof (cases allocated)
    case True
    with greedy_proper[OF assms] show ?thesis by auto
  next
    case False
    with greedy_failed_allocation show ?thesis by simp
  qed
  from dsatur_proper[OF assms, of arrays rows used]
  have d: "(\<forall>status color k.
            dsatur_coloring arrays rows used g = (status, Some color, k) \<longrightarrow>
            status = 0 \<and> length color = num_vertices g \<and> proper_coloring g color) \<and>
         ((\<exists>color k. dsatur_coloring arrays rows used g = (0, Some color, k)) \<longleftrightarrow>
            dsatur_coloring arrays rows used g \<noteq> (- 1, None, 0)) \<and>
         (arrays \<and> list_all rows [0 ..< num_vertices g] \<and> list_all used [1 ..< num_vertices g] \<longrightarrow>
            (\<exists>color k. dsatur_coloring arrays rows used g = (0, Some color, k)))"
    by auto
  from g d show ?thesis by simp
qed

text \<open>
  The theorem at the triangle with a pendant vertex, with every allocation successful.
\<close>

theorem colorings_proper_on_symmetric_witness:
  "store_graph g_triangle_tail \<and> valid_entries g_triangle_tail \<and> symmetric g_triangle_tail \<and>
   greedy_sequential_coloring True g_triangle_tail = Some ([0, 1, 2, 0], 3) \<and>
   dsatur_coloring True (\<lambda>v. True) (\<lambda>step. True) g_triangle_tail = (0, Some [1, 2, 0, 1], 3) \<and>
   proper_coloring g_triangle_tail [0, 1, 2, 0] \<and> proper_coloring g_triangle_tail [1, 2, 0, 1]"
proof -
  have h: "store_graph g_triangle_tail" "valid_entries g_triangle_tail" "symmetric g_triangle_tail"
    by code_simp+
  have c: "greedy_sequential_coloring True g_triangle_tail = Some ([0, 1, 2, 0], 3)"
    "dsatur_coloring True (\<lambda>v. True) (\<lambda>step. True) g_triangle_tail = (0, Some [1, 2, 0, 1], 3)"
    by code_simp+
  from colorings_proper_on_symmetric[OF h, of True True "\<lambda>v. True" "\<lambda>step. True"] h c
  show ?thesis by simp
qed

text \<open>
  On the directed graph with the single edge 0 \<rightarrow> 1 both routines, with every allocation
  successful, give the two vertices the colour 0.
\<close>

theorem colorings_directed_counterexample:
  "valid_entries g_arrow \<and> 1 \<in> set (adj_list g_arrow 0) \<and>
   greedy_sequential_coloring True g_arrow = Some ([0, 0], 1) \<and>
   dsatur_coloring True (\<lambda>v. True) (\<lambda>step. True) g_arrow = (0, Some [0, 0], 1) \<and>
   \<not> proper_coloring g_arrow [0, 0]"
  by code_simp

section \<open>Properties of the topological sort\<close>

lemma count_list_zero_iff: "count_list xs x = 0 \<longleftrightarrow> x \<notin> set xs"
  by (induction xs) auto

lemma in_degree_fold_list:
  "\<forall>x \<in> set xs. x < n \<Longrightarrow> length d = n \<Longrightarrow>
   \<exists>d'. fold (in_degree_entry n) xs (Some d) = Some d' \<and> length d' = n \<and>
        (\<forall>v < n. d' ! v = d ! v + count_list xs v)"
proof (induction xs arbitrary: d)
  case Nil then show ?case by simp
next
  case (Cons x xs)
  let ?d1 = "d[x := d ! x + 1]"
  have x: "x < n" using Cons.prems by simp
  have s: "in_degree_entry n x (Some d) = Some ?d1" using x by (simp add: in_degree_entry_def)
  have "\<forall>y \<in> set xs. y < n" "length ?d1 = n" using Cons.prems by simp_all
  from Cons.IH[OF this] obtain d' where d': "fold (in_degree_entry n) xs (Some ?d1) = Some d'"
    "length d' = n" "\<forall>v < n. d' ! v = ?d1 ! v + count_list xs v" by blast
  have "\<forall>v < n. d' ! v = d ! v + count_list (x # xs) v"
    using d'(3) Cons.prems(2) x by (auto simp: nth_list_update)
  with d'(1,2) s show ?case by simp
qed

lemma in_degree_fold_vertices:
  assumes "valid_entries g"
  shows "k \<le> num_vertices g \<Longrightarrow>
   \<exists>d. fold (\<lambda>u st. fold (in_degree_entry (num_vertices g)) (adj_list g u) st) [0 ..< k]
          (Some (replicate (num_vertices g) 0)) = Some d \<and>
        length d = num_vertices g \<and>
        (\<forall>v < num_vertices g. d ! v = (\<Sum>w \<in> {..< k}. count_list (adj_list g w) v))"
proof (induction k)
  case 0 then show ?case by simp
next
  case (Suc k)
  let ?n = "num_vertices g"
  from Suc obtain d where d: "fold (\<lambda>u st. fold (in_degree_entry ?n) (adj_list g u) st) [0 ..< k]
          (Some (replicate ?n 0)) = Some d" "length d = ?n"
      "\<forall>v < ?n. d ! v = (\<Sum>w \<in> {..< k}. count_list (adj_list g w) v)" by auto
  have kn: "k < ?n" using Suc.prems by simp
  have "\<forall>x \<in> set (adj_list g k). x < ?n" using valid_entriesD[OF assms kn] by blast
  from in_degree_fold_list[OF this d(2)] obtain d' where
    d': "fold (in_degree_entry ?n) (adj_list g k) (Some d) = Some d'" "length d' = ?n"
        "\<forall>v < ?n. d' ! v = d ! v + count_list (adj_list g k) v" by blast
  have "\<forall>v < ?n. d' ! v = (\<Sum>w \<in> {..< Suc k}. count_list (adj_list g w) v)"
    using d'(3) d(3) by simp
  with d(1) d'(1,2) show ?case by simp
qed

lemma in_degrees_pend:
  assumes "valid_entries g"
  shows "\<exists>d. in_degrees g = Some d \<and> length d = num_vertices g \<and>
             (\<forall>v < num_vertices g. d ! v = pend g {} v)"
  using in_degree_fold_vertices[OF assms order_refl] by (simp add: in_degrees_def pend_def)

lemma pend_remove:
  assumes "u < num_vertices g" "u \<notin> P"
  shows "pend g P v = count_list (adj_list g u) v + pend g (insert u P) v"
proof -
  have "{..< num_vertices g} - insert u P = ({..< num_vertices g} - P) - {u}" by auto
  moreover have "u \<in> {..< num_vertices g} - P" using assms by simp
  ultimately show ?thesis unfolding pend_def by (simp add: sum.remove)
qed

lemma pend_zero:
  "pend g P v = 0 \<longleftrightarrow> (\<forall>w < num_vertices g. w \<notin> P \<longrightarrow> v \<notin> set (adj_list g w))"
  by (auto simp: pend_def count_list_zero_iff)

lemma kahn_relax_fold:
  assumes "\<forall>y \<in> set ys. y < n" and "length d = n" and "distinct q" and "set q \<subseteq> {..< n}"
    and "\<forall>v < n. d ! v = c v + count_list ys v"
    and "\<forall>v < n. v \<in> set q \<longleftrightarrow> d ! v = 0"
  shows "\<exists>d' qs. fold (kahn_relax n) ys (Some (d, q)) = Some (d', q @ qs) \<and>
           length d' = n \<and> distinct (q @ qs) \<and> set (q @ qs) \<subseteq> {..< n} \<and>
           (\<forall>v < n. d' ! v = c v) \<and> (\<forall>v < n. v \<in> set (q @ qs) \<longleftrightarrow> d' ! v = 0)"
  using assms
proof (induction ys arbitrary: d q)
  case Nil
  then show ?case by (intro exI[of _ d] exI[of _ "[]"]) simp
next
  case (Cons y ys)
  have y: "y < n" using Cons.prems(1) by simp
  have dy: "d ! y = c y + count_list ys y + 1" using Cons.prems(5) y by simp
  then have dec: "size_dec (d ! y) = c y + count_list ys y" by (simp add: size_dec_def)
  have ynq: "y \<notin> set q" using Cons.prems(6) y dy by simp
  let ?d1 = "d[y := size_dec (d ! y)]"
  let ?q1 = "if size_dec (d ! y) = 0 then q @ [y] else q"
  have lq: "length q < n"
  proof -
    have "card (set q) < card {..< n}"
      using Cons.prems(4) ynq y by (intro psubset_card_mono) auto
    then show ?thesis using Cons.prems(3) by (simp add: distinct_card)
  qed
  have step: "kahn_relax n y (Some (d, q)) = Some (?d1, ?q1)"
    using lq by (simp add: kahn_relax_def Let_def)
  have p1: "\<forall>x \<in> set ys. x < n" using Cons.prems(1) by simp
  have p2: "length ?d1 = n" using Cons.prems(2) by simp
  have p3: "distinct ?q1" using Cons.prems(3) ynq by simp
  have p4: "set ?q1 \<subseteq> {..< n}" using Cons.prems(4) y by simp
  have p5: "\<forall>v < n. ?d1 ! v = c v + count_list ys v"
    using Cons.prems(2,5) dec y by (auto simp: nth_list_update)
  have p6: "\<forall>v < n. v \<in> set ?q1 \<longleftrightarrow> ?d1 ! v = 0"
    using Cons.prems(2,6) y ynq by (auto simp: nth_list_update)
  from Cons.IH[OF p1 p2 p3 p4 p5 p6] obtain d' qs where
    r: "fold (kahn_relax n) ys (Some (?d1, ?q1)) = Some (d', ?q1 @ qs)"
       "length d' = n" "distinct (?q1 @ qs)" "set (?q1 @ qs) \<subseteq> {..< n}"
       "\<forall>v < n. d' ! v = c v" "\<forall>v < n. v \<in> set (?q1 @ qs) \<longleftrightarrow> d' ! v = 0" by blast
  obtain qs' where qs': "?q1 @ qs = q @ qs'" by (cases "size_dec (d ! y) = 0") auto
  show ?case
    apply (rule exI[of _ d'], rule exI[of _ qs'])
    using r step qs' by simp
qed

lemma distinct_length_le:
  assumes "distinct q" "set q \<subseteq> {..< n}"
  shows "length q \<le> n" and "length q = n \<longleftrightarrow> set q = {..< n}"
proof -
  have c: "card (set q) = length q" using assms(1) by (simp add: distinct_card)
  have "card (set q) \<le> card {..< n}" using assms(2) by (intro card_mono) auto
  then show "length q \<le> n" using c by simp
  show "length q = n \<longleftrightarrow> set q = {..< n}"
  proof
    assume "length q = n"
    then have "card (set q) = card {..< n}" using c by simp
    with assms(2) show "set q = {..< n}" by (simp add: card_subset_eq)
  next
    assume "set q = {..< n}"
    then show "length q = n" using c by simp
  qed
qed

lemma kahn_loop_inv:
  assumes val: "valid_entries g"
  shows "num_vertices g - front = m \<Longrightarrow> kahn_inv g d q front \<Longrightarrow> order = take front q \<Longrightarrow>
         \<exists>d' q'. kahn_loop g d q front order = Some (q', length q') \<and> kahn_inv g d' q' (length q')"
proof (induction m arbitrary: d q front order)
  case 0
  let ?n = "num_vertices g"
  have inv: "distinct q" "set q \<subseteq> {..< ?n}" "front \<le> length q"
    using 0(2) by (simp_all add: kahn_inv_def)
  have "length q \<le> ?n" using distinct_length_le(1)[OF inv(1,2)] .
  with 0(1) inv(3) have fl: "front = length q" by simp
  then have "kahn_loop g d q front order = Some (q, length q)"
    using 0(3) by (subst kahn_loop.simps) simp
  with 0(2) fl show ?case by auto
next
  case (Suc m)
  let ?n = "num_vertices g"
  have inv: "length d = ?n" "distinct q" "set q \<subseteq> {..< ?n}" "front \<le> length q"
    "\<forall>v < ?n. d ! v = pend g (set (take front q)) v"
    "\<forall>v < ?n. v \<in> set q \<longleftrightarrow> d ! v = 0"
    "\<forall>j < length q. \<forall>w < ?n. q ! j \<in> set (adj_list g w) \<longrightarrow> w \<in> set (take j q)"
    using Suc.prems(2) by (simp_all add: kahn_inv_def)
  show ?case
  proof (cases "front < length q")
    case False
    with inv(4) have fl: "front = length q" by simp
    then have "kahn_loop g d q front order = Some (q, length q)"
      using Suc.prems(3) by (subst kahn_loop.simps) simp
    with Suc.prems(2) fl show ?thesis by auto
  next
    case fr: True
    let ?u = "q ! front" and ?P = "set (take front q)"
    have fn: "front < ?n" using Suc.prems(1) by simp
    have u: "?u < ?n" using inv(3) fr by (auto dest: nth_mem)
    have unP: "?u \<notin> ?P"
    proof
      assume "?u \<in> ?P"
      then obtain i where "i < front" "q ! i = q ! front"
        using fr by (auto simp: in_set_conv_nth)
      with inv(2) fr show False by (simp add: nth_eq_iff_index_eq)
    qed
    have tk: "take (Suc front) q = take front q @ [?u]" using fr by (simp add: take_Suc_conv_app_nth)
    have ys: "\<forall>y \<in> set (adj_list g ?u). y < ?n" using valid_entriesD[OF val u] by blast
    have cnt: "\<forall>v < ?n. d ! v = pend g (insert ?u ?P) v + count_list (adj_list g ?u) v"
      using inv(5) pend_remove[OF u unP] by simp
    from kahn_relax_fold[OF ys inv(1,2,3) cnt inv(6)] obtain d' qs where
      r: "fold (kahn_relax ?n) (adj_list g ?u) (Some (d, q)) = Some (d', q @ qs)"
         "length d' = ?n" "distinct (q @ qs)" "set (q @ qs) \<subseteq> {..< ?n}"
         "\<forall>v < ?n. d' ! v = pend g (insert ?u ?P) v"
         "\<forall>v < ?n. v \<in> set (q @ qs) \<longleftrightarrow> d' ! v = 0" by blast
    have tk': "take (Suc front) (q @ qs) = take front q @ [?u]" using fr tk by simp
    have setk: "set (take (Suc front) (q @ qs)) = insert ?u ?P" using tk' by simp
    have K: "\<forall>j < length (q @ qs). \<forall>w < ?n.
        (q @ qs) ! j \<in> set (adj_list g w) \<longrightarrow> w \<in> set (take j (q @ qs))"
    proof (intro allI impI)
      fix j w assume j: "j < length (q @ qs)" and w: "w < ?n"
        and e: "(q @ qs) ! j \<in> set (adj_list g w)"
      show "w \<in> set (take j (q @ qs))"
      proof (cases "j < length q")
        case True
        then have "w \<in> set (take j q)" using inv(7) w e by (simp add: nth_append)
        then show ?thesis using True by simp
      next
        case False
        let ?v = "(q @ qs) ! j"
        have vin: "?v \<in> set (q @ qs)" using j by (rule nth_mem)
        then have vn: "?v < ?n" using r(4) by auto
        with r(5,6) vin have "pend g (insert ?u ?P) ?v = 0" by auto
        with e w have "w \<in> insert ?u ?P" by (auto simp: pend_zero)
        then have "w \<in> set (take (Suc front) (q @ qs))" using setk by simp
        moreover have "Suc front \<le> j" using False fr by simp
        ultimately show ?thesis using set_take_subset_set_take[of "Suc front" j "q @ qs"] by blast
      qed
    qed
    have inv': "kahn_inv g d' (q @ qs) (Suc front)"
      unfolding kahn_inv_def using r(2,3,4,5,6) K fr setk by simp
    have ord': "order @ [?u] = take (Suc front) (q @ qs)" using Suc.prems(3) tk' by simp
    have m: "?n - Suc front = m" using Suc.prems(1) by simp
    from Suc.IH[OF m inv' ord'] obtain d'' q'' where
      f: "kahn_loop g d' (q @ qs) (Suc front) (order @ [?u]) = Some (q'', length q'')"
         "kahn_inv g d'' q'' (length q'')" by blast
    have "kahn_loop g d q front order = kahn_loop g d' (q @ qs) (Suc front) (order @ [?u])"
      using fr fn r(1) by (subst kahn_loop.simps) simp
    with f show ?thesis by auto
  qed
qed

lemma cycle_from_predecessors:
  assumes "finite S" "S \<noteq> {}" "\<forall>v \<in> S. \<exists>w \<in> S. (w, v) \<in> E"
  shows "\<exists>x \<in> S. (x, x) \<in> E\<^sup>+"
proof (rule ccontr)
  assume no: "\<not> (\<exists>x \<in> S. (x, x) \<in> E\<^sup>+)"
  let ?R = "E \<inter> S \<times> S"
  have fin: "finite ?R" using assms(1) by simp
  have "acyclic ?R"
    unfolding acyclic_def
  proof (intro allI notI)
    fix x assume x: "(x, x) \<in> ?R\<^sup>+"
    then have "(x, x) \<in> E\<^sup>+" by (rule trancl_mono) simp
    moreover have "x \<in> S" using x by (metis IntD2 SigmaD1 tranclD)
    ultimately show False using no by blast
  qed
  with fin have "wf ?R" by (rule finite_acyclic_wf)
  from assms(2) obtain s where "s \<in> S" by blast
  with \<open>wf ?R\<close> obtain z where z: "z \<in> S" "\<And>y. (y, z) \<in> ?R \<Longrightarrow> y \<notin> S"
    by (rule wfE_min) blast
  from assms(3) z(1) obtain w where "w \<in> S" "(w, z) \<in> E" by blast
  with z show False by blast
qed

lemma stuck_has_cycle:
  assumes "kahn_inv g d q (length q)" "length q \<noteq> num_vertices g"
  shows "has_directed_cycle g"
proof -
  let ?n = "num_vertices g"
  have inv: "distinct q" "set q \<subseteq> {..< ?n}"
    "\<forall>v < ?n. d ! v = pend g (set q) v" "\<forall>v < ?n. v \<in> set q \<longleftrightarrow> d ! v = 0"
    using assms(1) by (simp_all add: kahn_inv_def)
  let ?S = "{..< ?n} - set q"
  have "set q \<noteq> {..< ?n}" using distinct_length_le(2)[OF inv(1,2)] assms(2) by simp
  with inv(2) have ne: "?S \<noteq> {}" by blast
  have pre: "\<forall>v \<in> ?S. \<exists>w \<in> ?S. (w, v) \<in> edge_rel g"
  proof
    fix v assume v: "v \<in> ?S"
    then have "pend g (set q) v \<noteq> 0" using inv(3,4) by auto
    then obtain w where "w < ?n" "w \<notin> set q" "v \<in> set (adj_list g w)"
      by (auto simp: pend_zero)
    then show "\<exists>w \<in> ?S. (w, v) \<in> edge_rel g" by (auto simp: edge_rel_iff)
  qed
  have "finite ?S" by simp
  from cycle_from_predecessors[OF this ne pre] obtain x where "x \<in> ?S" "(x, x) \<in> (edge_rel g)\<^sup>+"
    by blast
  then show ?thesis by (auto simp: has_directed_cycle_def)
qed

lemma complete_is_order:
  assumes val: "valid_entries g" and "kahn_inv g d q (length q)" and len: "length q = num_vertices g"
  shows "edges_forward g q" and "\<not> has_directed_cycle g" and "distinct q"
proof -
  let ?n = "num_vertices g"
  have inv: "distinct q" "set q \<subseteq> {..< ?n}"
    "\<forall>j < length q. \<forall>w < ?n. q ! j \<in> set (adj_list g w) \<longrightarrow> w \<in> set (take j q)"
    using assms(2) by (simp_all add: kahn_inv_def)
  show "distinct q" by (rule inv(1))
  have all: "set q = {..< ?n}" using distinct_length_le(2)[OF inv(1,2)] len by simp
  let ?B = "{(a, b). \<exists>j < length q. \<exists>i < j. q ! i = a \<and> q ! j = b}"
  have sub: "edge_rel g \<subseteq> ?B"
  proof
    fix e assume e: "e \<in> edge_rel g"
    obtain u v where uv: "e = (u, v)" by (cases e)
    with e have u: "u < ?n" and v: "v \<in> set (adj_list g u)" by (simp_all add: edge_rel_iff)
    have "v < ?n" using valid_entriesD[OF val u v] .
    then have "v \<in> set q" using all by simp
    then obtain j where j: "j < length q" "q ! j = v" by (auto simp: in_set_conv_nth)
    with inv(3) u v have "u \<in> set (take j q)" by blast
    then obtain i where "i < j" "q ! i = u" using j(1) by (auto simp: in_set_conv_nth)
    with j uv show "e \<in> ?B" by blast
  qed
  show "edges_forward g q"
    unfolding edges_forward_def
  proof (intro ballI)
    fix e assume "e \<in> edge_rel g"
    with sub have "e \<in> ?B" by blast
    then obtain j i where ji: "j < length q" "i < j" "e = (q ! i, q ! j)" by auto
    have "\<exists>j' \<in> {0 ..< length q}. \<exists>i' \<in> {0 ..< j'}. q ! i' = q ! i \<and> q ! j' = q ! j"
    proof (rule bexI[of _ j])
      show "\<exists>i' \<in> {0 ..< j}. q ! i' = q ! i \<and> q ! j = q ! j"
        using ji(2) by (intro bexI[of _ i]) simp_all
      show "j \<in> {0 ..< length q}" using ji(1) by simp
    qed
    then show "case e of (u, v) \<Rightarrow> \<exists>j \<in> {0 ..< length q}. \<exists>i \<in> {0 ..< j}. q ! i = u \<and> q ! j = v"
      using ji(3) by simp
  qed
  have "trans ?B"
  proof (rule transI)
    fix a b c assume "(a, b) \<in> ?B" "(b, c) \<in> ?B"
    then obtain j i k j' where 1: "j < length q" "i < j" "q ! i = a" "q ! j = b"
      and 2: "k < length q" "j' < k" "q ! j' = b" "q ! k = c" by blast
    have "j' < length q" using 2 by simp
    moreover have "q ! j = q ! j'" using 1 2 by simp
    ultimately have "j = j'" using 1(1) inv(1) by (simp add: nth_eq_iff_index_eq)
    with 1 2 have "i < k" by simp
    with 1 2 show "(a, c) \<in> ?B" by blast
  qed
  then have "?B\<^sup>+ = ?B" by (rule trancl_id)
  moreover have "(edge_rel g)\<^sup>+ \<subseteq> ?B\<^sup>+" using sub by (rule trancl_mono_subset)
  ultimately have tr: "(edge_rel g)\<^sup>+ \<subseteq> ?B" by simp
  show "\<not> has_directed_cycle g"
  proof
    assume "has_directed_cycle g"
    then obtain x where "(x, x) \<in> (edge_rel g)\<^sup>+" by (auto simp: has_directed_cycle_def)
    with tr have "(x, x) \<in> ?B" by blast
    then obtain j i where "j < length q" "i < j" "q ! i = q ! j" by auto
    with inv(1) show False by (simp add: nth_eq_iff_index_eq)
  qed
qed

lemma kahn_initial_inv:
  assumes "length d = num_vertices g" "\<forall>v < num_vertices g. d ! v = pend g {} v"
  shows "kahn_inv g d (filter (\<lambda>v. d ! v = 0) [0 ..< num_vertices g]) 0"
  unfolding kahn_inv_def
proof (intro conjI allI impI)
  let ?q = "filter (\<lambda>v. d ! v = 0) [0 ..< num_vertices g]"
  fix j w assume j: "j < length ?q" and w: "w < num_vertices g" and e: "?q ! j \<in> set (adj_list g w)"
  have "?q ! j \<in> set ?q" using j by (rule nth_mem)
  then have "?q ! j < num_vertices g" "d ! (?q ! j) = 0" by auto
  with assms(2) have "pend g {} (?q ! j) = 0" by simp
  with w e show "w \<in> set (take j ?q)" by (auto simp: pend_zero)
qed (use assms in auto)

lemma g_dag_acyclic: "\<not> has_directed_cycle g_dag"
proof
  assume "has_directed_cycle g_dag"
  then obtain x where x: "(x, x) \<in> (edge_rel g_dag)\<^sup>+" by (auto simp: has_directed_cycle_def)
  have e: "edge_list g_dag = [(0, 1), (0, 2), (1, 2)]" by code_simp
  have "edge_rel g_dag \<subseteq> {(u, v). u < v}" by (simp add: edge_rel_def e)
  then have "(edge_rel g_dag)\<^sup>+ \<subseteq> {(u, v). u < v}\<^sup>+" by (rule trancl_mono_subset)
  moreover have "trans {(u :: nat, v). u < v}" by (auto simp: trans_def)
  ultimately have "(edge_rel g_dag)\<^sup>+ \<subseteq> {(u, v). u < v}" by (simp add: trancl_id)
  with x show False by auto
qed

text \<open>
  Claim C4. On a directed graph with at least one vertex and valid entries,
  \<open>topological_sort\<close> returns (it never leaves its arrays). It returns NULL exactly when
  the graph has a directed cycle or one of its three allocations fails, and an array it
  returns holds every vertex once, with the source of every stored edge strictly before
  its destination.
\<close>

theorem topological_sort_null_iff_cycle:
  assumes "0 < num_vertices g" and "valid_entries g" and "directed g"
  shows "\<exists>r. topological_sort allocated g = Some r \<and>
             (r = None \<longleftrightarrow> has_directed_cycle g \<or> \<not> allocated) \<and>
             (\<forall>order. r = Some order \<longrightarrow>
                length order = num_vertices g \<and> distinct order \<and> edges_forward g order)"
proof (cases allocated)
  case False
  with assms show ?thesis by (simp add: topological_sort_def)
next
  case True
  let ?n = "num_vertices g"
  have n: "0 < ?n" using assms(1) .
  from in_degrees_pend[OF assms(2)] obtain d where
    d: "in_degrees g = Some d" "length d = ?n" "\<forall>v < ?n. d ! v = pend g {} v" by blast
  let ?q0 = "filter (\<lambda>v. d ! v = 0) [0 ..< ?n]"
  have i0: "kahn_inv g d ?q0 0" using kahn_initial_inv[OF d(2,3)] .
  from kahn_loop_inv[OF assms(2) refl i0, of "[]"] obtain d' q where
    q: "kahn_loop g d ?q0 0 [] = Some (q, length q)" "kahn_inv g d' q (length q)" by auto
  have res: "topological_sort allocated g = Some (if length q \<noteq> ?n then None else Some q)"
    using assms(3) n d(1) q(1) True by (simp add: topological_sort_def)
  show ?thesis
  proof (cases "length q = ?n")
    case eq: True
    from complete_is_order[OF assms(2) q(2) eq] res eq True show ?thesis by simp
  next
    case ne: False
    from stuck_has_cycle[OF q(2) ne] res ne show ?thesis by simp
  qed
qed

text \<open>
  The theorem at a graph without a cycle, with the arrays allocated, and at the directed
  triangle.
\<close>

theorem topological_sort_null_iff_cycle_witness:
  "0 < num_vertices g_dag \<and> valid_entries g_dag \<and> directed g_dag \<and>
   topological_sort True g_dag = Some (Some [0, 1, 2]) \<and> \<not> has_directed_cycle g_dag \<and>
   edges_forward g_dag [0, 1, 2] \<and>
   0 < num_vertices g_cycle \<and> valid_entries g_cycle \<and> directed g_cycle \<and>
   topological_sort True g_cycle = Some None \<and> has_directed_cycle g_cycle"
proof -
  have h1: "0 < num_vertices g_dag" "valid_entries g_dag" "directed g_dag" by code_simp+
  have h2: "0 < num_vertices g_cycle" "valid_entries g_cycle" "directed g_cycle" by code_simp+
  have c: "topological_sort True g_dag = Some (Some [0, 1, 2])"
    "topological_sort True g_cycle = Some None"
    by code_simp+
  from topological_sort_null_iff_cycle[OF h1, of True] c(1)
  have 1: "\<not> has_directed_cycle g_dag \<and> edges_forward g_dag [0, 1, 2]" by simp
  from topological_sort_null_iff_cycle[OF h2, of True] c(2)
  have 2: "has_directed_cycle g_cycle" by simp
  from h1 h2 c 1 2 show ?thesis by simp
qed

text \<open>
  A NULL does not tell a cycle: on the graph with the edges 0 \<rightarrow> 1, 1 \<rightarrow> 2 and 0 \<rightarrow> 2,
  which has no cycle, the routine returns NULL when an allocation fails.
\<close>

theorem topological_sort_failed_allocation_counterexample:
  "0 < num_vertices g_dag \<and> valid_entries g_dag \<and> directed g_dag \<and>
   \<not> has_directed_cycle g_dag \<and> topological_sort False g_dag = Some None"
proof -
  have "0 < num_vertices g_dag" "valid_entries g_dag" "directed g_dag"
    "topological_sort False g_dag = Some None"
    by code_simp+
  with g_dag_acyclic show ?thesis by simp
qed

section \<open>Properties of the minimum spanning tree\<close>














































section \<open>Properties of the maximum flow and the minimum cut\<close>

text \<open>The value of \<open>min_cut\<close> is the one \<open>edmonds_karp_max_flow\<close> returns: the code is the same.\<close>

lemma min_cut_value:
  "min_cut g capacity source sink = Some (value, out_cut, out_ncut) \<Longrightarrow>
   edmonds_karp_max_flow g capacity source sink = Some value"
  by (auto simp: min_cut_def edmonds_karp_max_flow_def Let_def
           split: if_splits option.splits flow_result.splits prod.splits)

lemma g_flow_edges: "edge_list g_flow = [(0, 1), (0, 3), (1, 2), (2, 4), (3, 2)]"
  by code_simp

lemma g_flow_valid: "wf_graph g_flow \<and> valid_entries g_flow \<and> directed g_flow \<and> num_vertices g_flow = 5"
  by code_simp

lemma r_flow_final: "augment_loop g_flow 0 4 (copy_matrix 5 c_flow) 0 = Some (Flow 1 r_flow)"
  by code_simp

lemma r_flow_arcs:
  "residual_rel 5 r_flow = {(0, 3), (1, 0), (2, 1), (3, 2), (4, 2)}"
proof -
  have "(u, v) \<in> residual_rel 5 r_flow \<longleftrightarrow> (u, v) \<in> {(0, 3), (1, 0), (2, 1), (3, 2), (4, 2)}"
    for u v
  proof -
    have *: "u < 5 \<longleftrightarrow> u = 0 \<or> u = 1 \<or> u = 2 \<or> u = 3 \<or> u = 4" for u :: nat by arith
    show ?thesis
      by (auto simp: residual_rel_def r_flow_def *)
  qed
  then show ?thesis by auto
qed

lemma r_flow_reachable: "residual_reachable 5 r_flow 0 = {0, 1, 2, 3}"
proof -
  let ?R = "residual_rel 5 r_flow"
  have a: "(0, 3) \<in> ?R" "(3, 2) \<in> ?R" "(2, 1) \<in> ?R" by (simp_all add: r_flow_arcs)
  have "(0, 0) \<in> ?R\<^sup>*" by simp
  moreover have r3: "(0, 3) \<in> ?R\<^sup>*" using a(1) by blast
  moreover have r2: "(0, 2) \<in> ?R\<^sup>*" using r3 a(2) by (rule rtrancl_into_rtrancl)
  moreover have "(0, 1) \<in> ?R\<^sup>*" using r2 a(3) by (rule rtrancl_into_rtrancl)
  moreover have "v \<in> {0, 1, 2, 3}" if "(0, v) \<in> ?R\<^sup>*" for v
    using that by (induction rule: rtrancl_induct) (auto simp: r_flow_arcs)
  ultimately show ?thesis unfolding residual_reachable_def by blast
qed

lemma g_flow_crossing: "crossing g_flow c_flow (residual_reachable 5 r_flow 0) = {(2, 4)}"
proof -
  have e: "edge_rel g_flow = {(0, 1), (0, 3), (1, 2), (2, 4), (3, 2)}"
    by (simp add: edge_rel_def g_flow_edges)
  show ?thesis
    unfolding crossing_def r_flow_reachable e
    by (auto simp: c_flow_def)
qed

text \<open>
  Claim C2. On the directed graph \<open>g_flow\<close> with the capacities \<open>c_flow\<close>, source 0 and sink
  4, both routines return the flow 1, and the residual capacities they end with are
  \<open>r_flow\<close>. There the source reaches 3, 2 and, along the reverse of the edge 1 \<rightarrow> 2 that
  carries the flow, 1: the reachable set is {0, 1, 2, 3}, and the only stored edge of
  positive capacity that leaves it is 2 \<rightarrow> 4. But \<open>min_cut\<close> searches along the stored
  neighbours only, so it never takes the arc 2 \<rightarrow> 1, leaves 1 unmarked and reports the two
  edges 0 \<rightarrow> 1 and 2 \<rightarrow> 4, of capacity 2 together, as the cut of value 1.
\<close>

theorem min_cut_ignores_reverse_arcs:
  "edmonds_karp_max_flow g_flow c_flow 0 4 = Some 1 \<and>
   min_cut g_flow c_flow 0 4 = Some (1, Some [\<lparr>v1 = 0, v2 = 1\<rparr>, \<lparr>v1 = 2, v2 = 4\<rparr>], 2) \<and>
   augment_loop g_flow 0 4 (copy_matrix (num_vertices g_flow) c_flow) 0 = Some (Flow 1 r_flow) \<and>
   residual_reachable (num_vertices g_flow) r_flow 0 = {0, 1, 2, 3} \<and>
   crossing g_flow c_flow (residual_reachable (num_vertices g_flow) r_flow 0) = {(2, 4)} \<and>
   cut_capacity c_flow [\<lparr>v1 = 0, v2 = 1\<rparr>, \<lparr>v1 = 2, v2 = 4\<rparr>] = 2"
proof -
  have "edmonds_karp_max_flow g_flow c_flow 0 4 = Some 1" by code_simp
  moreover have "min_cut g_flow c_flow 0 4 =
      Some (1, Some [\<lparr>v1 = 0, v2 = 1\<rparr>, \<lparr>v1 = 2, v2 = 4\<rparr>], 2)" by code_simp
  moreover have "cut_capacity c_flow [\<lparr>v1 = 0, v2 = 1\<rparr>, \<lparr>v1 = 2, v2 = 4\<rparr>] = 2" by code_simp
  ultimately show ?thesis using g_flow_valid r_flow_final r_flow_reachable g_flow_crossing by simp
qed

end
